theory Spec2Isabelle
  imports Main "HOL-Library.Word" "HOL-Library.Multiset"
begin

section \<open>The execution core of c11tester (execution.cc)\<close>

text \<open>
  A shallow embedding of \<^verbatim>\<open>ModelExecution\<close>. Objects that the C++ code shares
  through pointers (\<^verbatim>\<open>ModelAction *\<close>) are identified by an address and kept in a
  store; a null pointer is \<open>None\<close>. Every \<^verbatim>\<open>ASSERT\<close> that fails, every
  dereference of a null pointer and every read outside a vector is a value of type
  \<open>error\<close>, and the functions that can meet one return \<open>error + 'a\<close>.
\<close>

subsection \<open>Failures\<close>

datatype error = AssertionFailure | NullDereference | OutOfBounds

subsection \<open>Machine integers\<close>

type_synonym thread_id_t = int
type_synonym modelclock_t = nat
type_synonym aid = nat
type_synonym location = nat

text \<open>\<^verbatim>\<open>id_to_int\<close> and \<^verbatim>\<open>int_to_id\<close> are the identity on thread ids.\<close>

definition id_to_int :: "thread_id_t \<Rightarrow> int" where
  "id_to_int t = t"

definition int_to_id :: "int \<Rightarrow> thread_id_t" where
  "int_to_id i = i"

text \<open>The conversion of an \<^verbatim>\<open>int\<close> to \<^verbatim>\<open>unsigned int\<close> (32 bits).\<close>

definition to_unsigned :: "int \<Rightarrow> nat" where
  "to_unsigned i = nat (i mod 2 ^ 32)"

text \<open>The cast \<^verbatim>\<open>(int)\<close> of a vector's size (an \<^verbatim>\<open>unsigned int\<close>).\<close>

definition to_signed :: "nat \<Rightarrow> int" where
  "to_signed n = (let m = int n mod 2 ^ 32 in if m < 2 ^ 31 then m else m - 2 ^ 32)"

text \<open>
  \<^verbatim>\<open>SnapVector::operator[]\<close> takes an unsigned index and does not check it:
  a read at or past the size is outside the array.
\<close>

definition vec_at :: "'a list \<Rightarrow> int \<Rightarrow> error + 'a" where
  "vec_at xs i = (let j = to_unsigned i in if j < length xs then Inr (xs ! j) else Inl OutOfBounds)"

text \<open>\<^verbatim>\<open>SnapVector::resize\<close>: new slots are filled with the given element.\<close>

definition resize :: "'a list \<Rightarrow> nat \<Rightarrow> 'a \<Rightarrow> 'a list" where
  "resize xs n x = take n xs @ replicate (n - length xs) x"

subsection \<open>valequals\<close>

definition valequals :: "64 word \<Rightarrow> 64 word \<Rightarrow> int \<Rightarrow> error + bool" where
  "valequals val1 val2 sz =
     (if sz = 1 then Inr ((ucast val1 :: 8 word) = ucast val2)
      else if sz = 2 then Inr ((ucast val1 :: 16 word) = ucast val2)
      else if sz = 4 then Inr ((ucast val1 :: 32 word) = ucast val2)
      else if sz = 8 then Inr (val1 = val2)
      else Inl AssertionFailure)"

subsection \<open>Actions, clock vectors and threads\<close>

datatype action_type =
    THREAD_CREATE | THREAD_START | THREAD_YIELD | THREAD_JOIN | THREAD_FINISH
  | THREADONLY_FINISH | THREAD_SLEEP | PTHREAD_CREATE | PTHREAD_JOIN
  | NONATOMIC_WRITE | ATOMIC_UNINIT | ATOMIC_INIT | ATOMIC_WRITE | ATOMIC_RMW
  | ATOMIC_READ | ATOMIC_RMWR | ATOMIC_RMWRCAS | ATOMIC_RMWC | ATOMIC_FENCE
  | ATOMIC_LOCK | ATOMIC_TRYLOCK | ATOMIC_UNLOCK | ATOMIC_NOTIFY_ONE
  | ATOMIC_NOTIFY_ALL | ATOMIC_WAIT | ATOMIC_TIMEDWAIT

datatype memory_order =
    memory_order_relaxed | memory_order_acquire | memory_order_release
  | memory_order_acq_rel | memory_order_seq_cst

text \<open>
  A clock vector is its array \<^verbatim>\<open>clock\<close>, indexed by thread; the length of the list
  is \<^verbatim>\<open>num_threads\<close>. Clock vectors are kept by value: the functions below read a
  vector before they change another, and never change one they hold a second pointer to.
\<close>

type_synonym clockvector = "modelclock_t list"

record model_action =
  atype :: action_type
  morder :: memory_order
  location :: location
  val :: "64 word"
  asize :: int
  tid :: thread_id_t
  seq_number :: modelclock_t
  cv :: clockvector
  reads_from :: "aid option"
  rfcv :: "clockvector option"
  last_fence_release :: "aid option"
  mutex :: "location option"
  try_lock :: bool

text \<open>A \<^verbatim>\<open>Thread *\<close> is the id of the thread it points to.\<close>

record thread =
  thread_id :: thread_id_t
  is_model_thread :: bool
  pending :: "aid option"
  waiting_on :: "thread_id_t option"
  return_value :: "64 word"

text \<open>
  The scheduler and the race detector are not among the sources. What the core asks
  them to do is recorded, call by call; what they answer is a parameter (\<open>env\<close> below).
\<close>

datatype call = Wake thread_id_t | Sleep thread_id_t | SetAtomicStoreFlag location

text \<open>
  Modelled from the spec: the class \<^verbatim>\<open>CycleGraph\<close> is not among the sources. The spec
  gives it as a graph over writes with \<^verbatim>\<open>addEdge(a,b)\<close>, \<^verbatim>\<open>addEdges(list,b)\<close>,
  \<^verbatim>\<open>addRMWEdge(rf,rmw)\<close>, \<^verbatim>\<open>checkReachable(a,b)\<close> (is there a path from a to b) and,
  for a node, \<^verbatim>\<open>getRMW()\<close>, the RMW registered as reading from it. A node is a
  \<^verbatim>\<open>ModelAction *\<close>, which may be null.
\<close>

record cycle_graph =
  edges :: "(aid option \<times> aid option) list"
  rmw_of :: "aid option \<Rightarrow> aid option"

definition addEdge :: "cycle_graph \<Rightarrow> aid option \<Rightarrow> aid option \<Rightarrow> cycle_graph" where
  "addEdge g a b = g\<lparr>edges := edges g @ [(a, b)]\<rparr>"

definition addEdges :: "cycle_graph \<Rightarrow> aid option list \<Rightarrow> aid option \<Rightarrow> cycle_graph" where
  "addEdges g edgeset b = foldl (\<lambda>g' a. addEdge g' a b) g edgeset"

fun reachable_within ::
  "nat \<Rightarrow> (aid option \<times> aid option) list \<Rightarrow> aid option \<Rightarrow> aid option \<Rightarrow> bool" where
  "reachable_within 0 es a b = (a = b)"
| "reachable_within (Suc n) es a b =
     (a = b \<or> list_ex (\<lambda>e. fst e = a \<and> reachable_within n es (snd e) b) es)"

definition checkReachable :: "cycle_graph \<Rightarrow> aid option \<Rightarrow> aid option \<Rightarrow> bool" where
  "checkReachable g a b = reachable_within (length (edges g)) (edges g) a b"

record model_execution =
  actions :: "aid \<Rightarrow> model_action"
  next_action :: aid
  thread_map :: "thread option list"
  next_thread_id :: "32 word"
  used_sequence_numbers :: modelclock_t
  bugs :: "string list"
  asserted :: bool
  action_trace :: "aid list"
  obj_map :: "location \<Rightarrow> aid list option"
  condvar_waiters_map :: "location \<Rightarrow> aid list option"
  obj_thrd_map :: "location \<Rightarrow> aid list list option"
  obj_wr_thrd_map :: "location \<Rightarrow> aid list list option"
  obj_last_sc_map :: "location \<Rightarrow> aid option"
  thrd_last_action :: "aid option list"
  thrd_last_fence_release :: "aid option list"
  mo_graph :: cycle_graph
  locked :: "location \<Rightarrow> thread_id_t option"
  calls :: "call list"

text \<open>
  The collaborators of the core, none of them among the sources: the scheduler's
  \<^verbatim>\<open>is_enabled\<close>, the fuzzer's choices (the spec gives
  \<^verbatim>\<open>selectWrite(read, rf_set) \<rightarrow> index | -1\<close>, \<^verbatim>\<open>selectNotify(waiters) \<rightarrow> Thread\<close> and
  \<^verbatim>\<open>shouldWait(wait) \<rightarrow> bool\<close>), the race detector's record of non-atomic stores, the
  memory of the program under test, and the macro \<^verbatim>\<open>FENCE_LOCATION\<close>.
\<close>

record env =
  FENCE_LOCATION :: location
  is_enabled :: "thread_id_t \<Rightarrow> bool"
  selectWrite :: "aid \<Rightarrow> aid list \<Rightarrow> int"
  selectNotify :: "aid list \<Rightarrow> thread_id_t"
  shouldWait :: "aid \<Rightarrow> bool"
  hasNonAtomicStore :: "location \<Rightarrow> bool"
  getStoreThreadAndClock :: "location \<Rightarrow> thread_id_t \<times> modelclock_t"
  memory :: "location \<Rightarrow> 64 word"

subsection \<open>What the sources use of ModelAction and ClockVector\<close>

text \<open>
  Modelled from the spec: the classes \<^verbatim>\<open>ModelAction\<close> and \<^verbatim>\<open>ClockVector\<close> are not
  among the sources. The predicates on an action follow the kinds and memory orders of the
  spec's data model; a clock vector maps a thread to the largest sequence number known of
  it, \<^verbatim>\<open>getClock\<close> of a thread it does not hold is 0, \<^verbatim>\<open>merge\<close> is the pointwise
  maximum and tells whether anything changed, and an action happens before another when
  the other's clock vector has reached its sequence number.
\<close>

definition is_read :: "model_action \<Rightarrow> bool" where
  "is_read a = (atype a \<in> {ATOMIC_READ, ATOMIC_RMWR, ATOMIC_RMWRCAS, ATOMIC_RMW})"

definition is_write :: "model_action \<Rightarrow> bool" where
  "is_write a = (atype a \<in> {ATOMIC_WRITE, ATOMIC_RMW, ATOMIC_INIT, ATOMIC_UNINIT, NONATOMIC_WRITE})"

definition is_rmwr :: "model_action \<Rightarrow> bool" where
  "is_rmwr a = (atype a \<in> {ATOMIC_RMWR, ATOMIC_RMWRCAS})"

definition is_rmwrcas :: "model_action \<Rightarrow> bool" where
  "is_rmwrcas a = (atype a = ATOMIC_RMWRCAS)"

definition is_rmw :: "model_action \<Rightarrow> bool" where
  "is_rmw a = (atype a = ATOMIC_RMW)"

definition is_fence :: "model_action \<Rightarrow> bool" where
  "is_fence a = (atype a = ATOMIC_FENCE)"

definition is_lock :: "model_action \<Rightarrow> bool" where
  "is_lock a = (atype a = ATOMIC_LOCK)"

definition is_unlock :: "model_action \<Rightarrow> bool" where
  "is_unlock a = (atype a = ATOMIC_UNLOCK)"

definition is_wait :: "model_action \<Rightarrow> bool" where
  "is_wait a = (atype a = ATOMIC_WAIT)"

definition is_seqcst :: "model_action \<Rightarrow> bool" where
  "is_seqcst a = (morder a = memory_order_seq_cst)"

definition is_acquire :: "model_action \<Rightarrow> bool" where
  "is_acquire a = (morder a \<in> {memory_order_acquire, memory_order_acq_rel, memory_order_seq_cst})"

definition is_release :: "model_action \<Rightarrow> bool" where
  "is_release a = (morder a \<in> {memory_order_release, memory_order_acq_rel, memory_order_seq_cst})"

definition get_mutex :: "model_action \<Rightarrow> location option" where
  "get_mutex a = mutex a"

definition getClock :: "clockvector \<Rightarrow> thread_id_t \<Rightarrow> modelclock_t" where
  "getClock c t = (if 0 \<le> t \<and> nat t < length c then c ! nat t else 0)"

definition ClockVector_merge :: "clockvector \<Rightarrow> clockvector \<Rightarrow> bool \<times> clockvector" where
  "ClockVector_merge c d =
     (list_ex (\<lambda>i. getClock c (int i) < d ! i) [0 ..< length d],
      map (\<lambda>i. max (getClock c (int i)) (getClock d (int i))) [0 ..< max (length c) (length d)])"

text \<open>\<^verbatim>\<open>new ClockVector(parent, act)\<close>: a copy of the parent, with the action's own entry set.\<close>

definition ClockVector_new :: "clockvector option \<Rightarrow> model_action option \<Rightarrow> clockvector" where
  "ClockVector_new parent act =
     (let p = (case parent of None \<Rightarrow> [] | Some c \<Rightarrow> c)
      in case act of
           None \<Rightarrow> p
         | Some a \<Rightarrow> (resize p (max (length p) (nat (tid a) + 1)) 0)[nat (tid a) := seq_number a])"

definition happens_before :: "model_action \<Rightarrow> model_action \<Rightarrow> bool" where
  "happens_before a b = (0 \<le> tid a \<and> nat (tid a) < length (cv b) \<and> seq_number a \<le> cv b ! nat (tid a))"

definition upd_action :: "model_execution \<Rightarrow> aid \<Rightarrow> (model_action \<Rightarrow> model_action) \<Rightarrow> model_execution" where
  "upd_action s a f = s\<lparr>actions := (actions s)(a := f (actions s a))\<rparr>"

text \<open>\<^verbatim>\<open>second->synchronize_with(first)\<close>: the second action inherits the first's clock vector.\<close>

definition synchronize_with :: "model_execution \<Rightarrow> aid \<Rightarrow> aid \<Rightarrow> bool \<times> model_execution" where
  "synchronize_with s second first =
     (if seq_number (actions s second) < seq_number (actions s first) then (False, s)
      else (True, upd_action s second
                    (\<lambda>a. a\<lparr>cv := snd (ClockVector_merge (cv a) (cv (actions s first)))\<rparr>)))"


subsection \<open>Small members of ModelExecution\<close>

text \<open>
  \<^verbatim>\<open>next_thread_id\<close> is an \<^verbatim>\<open>unsigned int\<close>: the increment of \<^verbatim>\<open>get_next_id\<close> wraps at
  \<open>2 ^ 32\<close>, and the value returned is the old counter converted to the \<^verbatim>\<open>int\<close> that a
  thread id is, negative from \<open>2 ^ 31\<close> on.
\<close>

definition get_next_id :: "model_execution \<Rightarrow> thread_id_t \<times> model_execution" where
  "get_next_id s = (sint (next_thread_id s), s\<lparr>next_thread_id := next_thread_id s + 1\<rparr>)"

definition get_num_threads :: "model_execution \<Rightarrow> nat" where
  "get_num_threads s = unat (next_thread_id s)"

definition get_next_seq_num :: "model_execution \<Rightarrow> modelclock_t \<times> model_execution" where
  "get_next_seq_num s =
     (used_sequence_numbers s + 1, s\<lparr>used_sequence_numbers := used_sequence_numbers s + 1\<rparr>)"

definition set_assert :: "model_execution \<Rightarrow> model_execution" where
  "set_assert s = s\<lparr>asserted := True\<rparr>"

definition assert_bug :: "model_execution \<Rightarrow> string \<Rightarrow> model_execution" where
  "assert_bug s msg = set_assert (s\<lparr>bugs := bugs s @ [msg]\<rparr>)"


definition have_bug_reports :: "model_execution \<Rightarrow> bool" where
  "have_bug_reports s = (length (bugs s) \<noteq> 0)"

text \<open>
  \<^verbatim>\<open>get_safe_ptr_action\<close> and \<^verbatim>\<open>get_safe_ptr_vect_action\<close>: the table afterwards, and
  the list found or made.
\<close>

definition get_safe_ptr_action ::
  "(location \<Rightarrow> aid list option) \<Rightarrow> location \<Rightarrow> (location \<Rightarrow> aid list option) \<times> aid list" where
  "get_safe_ptr_action hash ptr =
     (case hash ptr of None \<Rightarrow> (hash(ptr \<mapsto> []), []) | Some tmp \<Rightarrow> (hash, tmp))"


subsection \<open>Thread lookup\<close>

definition get_thread :: "model_execution \<Rightarrow> thread_id_t \<Rightarrow> thread option" where
  "get_thread s t =
     (let i = to_unsigned (id_to_int t)
      in if i < length (thread_map s) then thread_map s ! i else None)"

definition get_last_action :: "model_execution \<Rightarrow> thread_id_t \<Rightarrow> error + aid option" where
  "get_last_action s t =
     (let threadid = id_to_int t
      in if threadid < to_signed (length (thrd_last_action s))
         then vec_at (thrd_last_action s) (id_to_int t)
         else Inr None)"

definition get_last_fence_release :: "model_execution \<Rightarrow> thread_id_t \<Rightarrow> error + aid option" where
  "get_last_fence_release s t =
     (let threadid = id_to_int t
      in if threadid < to_signed (length (thrd_last_fence_release s))
         then vec_at (thrd_last_fence_release s) (id_to_int t)
         else Inr None)"

text \<open>\<^verbatim>\<open>get_thread(cur)->set_return_value(v)\<close>, for a thread that \<^verbatim>\<open>get_thread\<close> found.\<close>

definition set_return_value :: "model_execution \<Rightarrow> thread_id_t \<Rightarrow> 64 word \<Rightarrow> error + model_execution" where
  "set_return_value s t v =
     (case get_thread s t of
        None \<Rightarrow> Inl NullDereference
      | Some th \<Rightarrow>
          Inr (s\<lparr>thread_map := (thread_map s)[to_unsigned (id_to_int t) := Some (th\<lparr>return_value := v\<rparr>)]\<rparr>))"

subsection \<open>Deadlock and completion\<close>

text \<open>
  The loop of \<^verbatim>\<open>is_deadlocked\<close> runs over \<open>i = 0 ..< get_num_threads\<close>;
  \<open>deadlock_loop\<close> takes the values of \<open>i\<close> still to visit and the flag
  \<^verbatim>\<open>blocking_threads\<close>.
\<close>

fun deadlock_loop :: "env \<Rightarrow> model_execution \<Rightarrow> nat list \<Rightarrow> bool \<Rightarrow> error + bool" where
  "deadlock_loop env s [] blocking_threads = Inr blocking_threads"
| "deadlock_loop env s (i # is) blocking_threads =
     (let t = int_to_id (int i)
      in if is_enabled env t then Inr False
         else (case get_thread s t of
                 None \<Rightarrow> Inl NullDereference
               | Some th \<Rightarrow>
                   deadlock_loop env s is
                     (if \<not> is_model_thread th \<and> pending th \<noteq> None then True
                      else blocking_threads)))"

definition is_deadlocked :: "env \<Rightarrow> model_execution \<Rightarrow> error + bool" where
  "is_deadlocked env s = deadlock_loop env s [0 ..< get_num_threads s] False"

definition is_complete_execution :: "env \<Rightarrow> model_execution \<Rightarrow> bool" where
  "is_complete_execution env s =
     (\<not> list_ex (\<lambda>i. is_enabled env (int_to_id (int i))) [0 ..< get_num_threads s])"

subsection \<open>insertIntoActionList\<close>

text \<open>
  An \<^verbatim>\<open>action_list_t\<close> is a doubly linked list, here the list of its elements from
  \<^verbatim>\<open>begin()\<close> to \<^verbatim>\<open>end()\<close> (the last node). \<open>insert_walk\<close> is the \<^verbatim>\<open>for\<close> loop
  that walks from the last node towards the front: its second argument is the part of the
  list still to visit, newest first, its last the elements already passed, in list order.
  It gives the list after \<^verbatim>\<open>insertAfter\<close> and the node found, or \<open>None\<close> when the walk
  ends with nothing found.
\<close>

fun insert_walk ::
  "(aid \<Rightarrow> model_action) \<Rightarrow> aid list \<Rightarrow> aid \<Rightarrow> aid list \<Rightarrow> (aid list \<times> aid) option" where
  "insert_walk acts [] act passed = None"
| "insert_walk acts (r # rs) act passed =
     (if seq_number (acts r) = seq_number (acts act)
      then Some (rev rs @ [r, act] @ passed, r)
      else insert_walk acts rs act (r # passed))"

definition insertIntoActionList :: "(aid \<Rightarrow> model_action) \<Rightarrow> aid list \<Rightarrow> aid \<Rightarrow> aid list" where
  "insertIntoActionList acts list act =
     (case rev list of
        [] \<Rightarrow> list @ [act]
      | r # rs \<Rightarrow>
          if seq_number (acts r) = seq_number (acts act) then list @ [act]
          else (case insert_walk acts (r # rs) act [] of
                  None \<Rightarrow> list
                | Some (list', m) \<Rightarrow> list'))"


subsection \<open>Mutexes and condition variables\<close>

definition get_last_unlock :: "model_execution \<Rightarrow> aid \<Rightarrow> error + aid option" where
  "get_last_unlock s cur =
     (case obj_map s (location (actions s cur)) of
        None \<Rightarrow> Inl NullDereference
      | Some list \<Rightarrow>
          Inr (find (\<lambda>a. is_unlock (actions s a) \<or> is_wait (actions s a)) (rev list)))"

definition synchronize :: "model_execution \<Rightarrow> aid \<Rightarrow> aid \<Rightarrow> error + bool \<times> model_execution" where
  "synchronize s first second =
     (if seq_number (actions s second) < seq_number (actions s first) then Inl AssertionFailure
      else Inr (synchronize_with s second first))"

text \<open>A \<^verbatim>\<open>Thread *\<close> got from \<^verbatim>\<open>get_thread\<close>: null, or the thread's id.\<close>

definition thread_ptr :: "model_execution \<Rightarrow> thread_id_t \<Rightarrow> thread_id_t option" where
  "thread_ptr s t = map_option thread_id (get_thread s t)"

text \<open>
  The loop that wakes the threads waiting for the lock that the current thread holds,
  over the values of \<open>i\<close> still to visit.
\<close>

fun wake_lock_waiters :: "model_execution \<Rightarrow> aid \<Rightarrow> nat list \<Rightarrow> error + model_execution" where
  "wake_lock_waiters s cur [] = Inr s"
| "wake_lock_waiters s cur (i # is) =
     (case get_thread s (int_to_id (int i)) of
        None \<Rightarrow> Inl NullDereference
      | Some t \<Rightarrow>
          let cur_thrd = thread_ptr s (tid (actions s cur))
          in if waiting_on t = cur_thrd
             then (case pending t of
                     None \<Rightarrow> Inl NullDereference
                   | Some p \<Rightarrow>
                       if is_lock (actions s p)
                       then wake_lock_waiters (s\<lparr>calls := calls s @ [Wake (thread_id t)]\<rparr>) cur is
                       else wake_lock_waiters s cur is)
             else wake_lock_waiters s cur is)"

text \<open>The loop of \<^verbatim>\<open>ATOMIC_NOTIFY_ALL\<close> over the waiters, oldest first.\<close>

fun wake_all :: "model_execution \<Rightarrow> aid list \<Rightarrow> error + model_execution" where
  "wake_all s [] = Inr s"
| "wake_all s (w # ws) =
     (case thread_ptr s (tid (actions s w)) of
        None \<Rightarrow> Inl NullDereference
      | Some t \<Rightarrow> wake_all (s\<lparr>calls := calls s @ [Wake t]\<rparr>) ws)"

text \<open>The case \<^verbatim>\<open>ATOMIC_LOCK\<close>, which \<^verbatim>\<open>ATOMIC_TRYLOCK\<close> falls into when it succeeds.\<close>

definition lock_case :: "model_execution \<Rightarrow> aid \<Rightarrow> error + bool \<times> model_execution" where
  "lock_case s cur =
     (case get_mutex (actions s cur) of
        None \<Rightarrow> Inl NullDereference
      | Some m \<Rightarrow>
          let s1 = s\<lparr>locked := (locked s)(m := thread_ptr s (tid (actions s cur)))\<rparr>
          in (case get_last_unlock s1 cur of
                Inl e \<Rightarrow> Inl e
              | Inr None \<Rightarrow> Inr (False, s1)
              | Inr (Some unlock) \<Rightarrow>
                  (case synchronize s1 unlock cur of
                     Inl e \<Rightarrow> Inl e
                   | Inr (b, s2) \<Rightarrow> Inr (True, s2))))"

definition process_mutex :: "env \<Rightarrow> model_execution \<Rightarrow> aid \<Rightarrow> error + bool \<times> model_execution" where
  "process_mutex env s cur =
     (let a = actions s cur; mutex = get_mutex a
      in case atype a of
           ATOMIC_TRYLOCK \<Rightarrow>
             (case mutex of
                None \<Rightarrow> Inl NullDereference
              | Some m \<Rightarrow>
                  let success = (locked s m = None);
                      s1 = upd_action s cur (\<lambda>a. a\<lparr>try_lock := success\<rparr>)
                  in if \<not> success
                     then (case set_return_value s1 (tid a) 0 of
                             Inl e \<Rightarrow> Inl e
                           | Inr s2 \<Rightarrow> Inr (False, s2))
                     else (case set_return_value s1 (tid a) 1 of
                             Inl e \<Rightarrow> Inl e
                           | Inr s2 \<Rightarrow> lock_case s2 cur))
         | ATOMIC_LOCK \<Rightarrow> lock_case s cur
         | ATOMIC_WAIT \<Rightarrow>
             (case wake_lock_waiters s cur [0 ..< get_num_threads s] of
                Inl e \<Rightarrow> Inl e
              | Inr s1 \<Rightarrow>
                  (case mutex of
                     None \<Rightarrow> Inl NullDereference
                   | Some m \<Rightarrow>
                       let s2 = s1\<lparr>locked := (locked s1)(m := None)\<rparr>
                       in if shouldWait env cur
                          then (let (hash, waiters) =
                                      get_safe_ptr_action (condvar_waiters_map s2) (location a);
                                    s3 = s2\<lparr>condvar_waiters_map := hash(location a \<mapsto> waiters @ [cur])\<rparr>
                                in case thread_ptr s3 (tid a) of
                                     None \<Rightarrow> Inl NullDereference
                                   | Some t \<Rightarrow> Inr (False, s3\<lparr>calls := calls s3 @ [Sleep t]\<rparr>))
                          else Inr (False, s2)))
         | ATOMIC_TIMEDWAIT \<Rightarrow>
             (case wake_lock_waiters s cur [0 ..< get_num_threads s] of
                Inl e \<Rightarrow> Inl e
              | Inr s1 \<Rightarrow>
                  (case mutex of
                     None \<Rightarrow> Inl NullDereference
                   | Some m \<Rightarrow> Inr (False, s1\<lparr>locked := (locked s1)(m := None)\<rparr>)))
         | ATOMIC_UNLOCK \<Rightarrow>
             (case wake_lock_waiters s cur [0 ..< get_num_threads s] of
                Inl e \<Rightarrow> Inl e
              | Inr s1 \<Rightarrow>
                  (case mutex of
                     None \<Rightarrow> Inl NullDereference
                   | Some m \<Rightarrow> Inr (False, s1\<lparr>locked := (locked s1)(m := None)\<rparr>)))
         | ATOMIC_NOTIFY_ALL \<Rightarrow>
             (let (hash, waiters) = get_safe_ptr_action (condvar_waiters_map s) (location a)
              in case wake_all (s\<lparr>condvar_waiters_map := hash\<rparr>) waiters of
                   Inl e \<Rightarrow> Inl e
                 | Inr s1 \<Rightarrow> Inr (False, s1\<lparr>condvar_waiters_map := hash(location a \<mapsto> [])\<rparr>))
         | ATOMIC_NOTIFY_ONE \<Rightarrow>
             (let (hash, waiters) = get_safe_ptr_action (condvar_waiters_map s) (location a);
                  s1 = s\<lparr>condvar_waiters_map := hash\<rparr>
              in if length waiters \<noteq> 0
                 then Inr (False, s1\<lparr>calls := calls s1 @ [Wake (selectNotify env waiters)]\<rparr>)
                 else Inr (False, s1))
         | _ \<Rightarrow> Inl AssertionFailure)"

subsection \<open>build_may_read_from\<close>

definition get_last_seq_cst_write :: "model_execution \<Rightarrow> aid \<Rightarrow> aid option" where
  "get_last_seq_cst_write s cur = obj_last_sc_map s (location (actions s cur))"

text \<open>
  The test on two RMWs reading from one write: true when it sets \<^verbatim>\<open>allow_read\<close> to
  false. \<^verbatim>\<open>valequals\<close> is called for a CAS only.
\<close>

definition second_rmw :: "model_execution \<Rightarrow> aid \<Rightarrow> aid \<Rightarrow> error + bool" where
  "second_rmw s cur act =
     (let c = actions s cur
      in if is_rmwr c
         then (if \<not> is_rmwrcas c
               then Inr (rmw_of (mo_graph s) (Some act) \<noteq> None)
               else (case valequals (val c) (val (actions s act)) (asize c) of
                       Inl e \<Rightarrow> Inl e
                     | Inr eq \<Rightarrow> Inr (eq \<and> rmw_of (mo_graph s) (Some act) \<noteq> None)))
         else Inr False)"

text \<open>
  The inner loop over the writes of one thread, newest first; \<open>rf_set\<close> is the vector
  built so far.
\<close>

fun may_read_from_walk ::
  "model_execution \<Rightarrow> aid \<Rightarrow> aid option \<Rightarrow> aid list \<Rightarrow> aid list \<Rightarrow> error + aid list" where
  "may_read_from_walk s cur last_sc_write [] rf_set = Inr rf_set"
| "may_read_from_walk s cur last_sc_write (act # rest) rf_set =
     (if act = cur then may_read_from_walk s cur last_sc_write rest rf_set
      else
        let c = actions s cur; a = actions s act;
            allow_read =
              (\<not> (is_seqcst c
                  \<and> (is_seqcst a
                      \<or> (case last_sc_write of
                            None \<Rightarrow> False
                          | Some l \<Rightarrow> happens_before a (actions s l)))
                  \<and> Some act \<noteq> last_sc_write))
        in case second_rmw s cur act of
             Inl e \<Rightarrow> Inl e
           | Inr second \<Rightarrow>
               let rf_set' = (if allow_read \<and> \<not> second then rf_set @ [act] else rf_set)
               in if happens_before a c then Inr rf_set'
                  else may_read_from_walk s cur last_sc_write rest rf_set')"

text \<open>The outer loop over the threads.\<close>

fun may_read_from_threads ::
  "model_execution \<Rightarrow> aid \<Rightarrow> aid option \<Rightarrow> aid list list \<Rightarrow> aid list \<Rightarrow> error + aid list" where
  "may_read_from_threads s cur last_sc_write [] rf_set = Inr rf_set"
| "may_read_from_threads s cur last_sc_write (list # others) rf_set =
     (case may_read_from_walk s cur last_sc_write (rev list) rf_set of
        Inl e \<Rightarrow> Inl e
      | Inr rf_set' \<Rightarrow> may_read_from_threads s cur last_sc_write others rf_set')"

definition build_may_read_from :: "model_execution \<Rightarrow> aid \<Rightarrow> error + aid list" where
  "build_may_read_from s cur =
     (if \<not> is_read (actions s cur) then Inl AssertionFailure
      else
        let last_sc_write =
              (if is_seqcst (actions s cur) then get_last_seq_cst_write s cur else None)
        in case obj_wr_thrd_map s (location (actions s cur)) of
             None \<Rightarrow> Inl NullDereference
           | Some thrd_lists \<Rightarrow> may_read_from_threads s cur last_sc_write thrd_lists [])"

text \<open>
  The writes that the inner loop visits in the list of one thread, given newest first:
  the current action is skipped, and the first write that happens before it is the last
  one visited.
\<close>

fun walked :: "model_execution \<Rightarrow> aid \<Rightarrow> aid list \<Rightarrow> aid list" where
  "walked s cur [] = []"
| "walked s cur (act # rest) =
     (if act = cur then walked s cur rest
      else if happens_before (actions s act) (actions s cur) then [act]
      else act # walked s cur rest)"

text \<open>
  The seq-cst rule that the code applies to a write \<open>w\<close> for a read \<open>cur\<close>: the read is
  not seq-cst, or \<open>w\<close> is the last seq-cst write of the location, or \<open>w\<close> is not seq-cst
  and does not happen before a last seq-cst write.
\<close>

definition sc_admits :: "model_execution \<Rightarrow> aid \<Rightarrow> aid \<Rightarrow> bool" where
  "sc_admits s cur w =
     (\<not> is_seqcst (actions s cur)
      \<or> get_last_seq_cst_write s cur = Some w
      \<or> (\<not> is_seqcst (actions s w)
          \<and> (case get_last_seq_cst_write s cur of
                None \<Rightarrow> True
              | Some l \<Rightarrow> \<not> happens_before (actions s w) (actions s l))))"

text \<open>
  The seq-cst rule in the words of the spec: the read is not seq-cst, or \<open>w\<close> is itself
  seq-cst, or the last seq-cst write exists and \<open>w\<close> happens before it; and the last
  seq-cst write is always admitted.
\<close>

definition spec_sc_admits :: "model_execution \<Rightarrow> aid \<Rightarrow> aid \<Rightarrow> bool" where
  "spec_sc_admits s cur w =
     (\<not> is_seqcst (actions s cur)
      \<or> is_seqcst (actions s w)
      \<or> (case get_last_seq_cst_write s cur of
            None \<Rightarrow> False
          | Some l \<Rightarrow> happens_before (actions s w) (actions s l))
      \<or> get_last_seq_cst_write s cur = Some w)"

subsection \<open>Modification order of a write\<close>

text \<open>
  \<^verbatim>\<open>get_last_seq_cst_fence\<close>: the list of the fences is walked from its last node; with
  a fence to start before, the walk first looks for that fence, and a walk that does not
  find it dereferences the null node.
\<close>

definition get_last_seq_cst_fence ::
  "env \<Rightarrow> model_execution \<Rightarrow> thread_id_t \<Rightarrow> aid option \<Rightarrow> error + aid option" where
  "get_last_seq_cst_fence env s t before_fence =
     (case obj_map s (FENCE_LOCATION env) of
        None \<Rightarrow> Inr None
      | Some list \<Rightarrow>
          let sc_fence = (\<lambda>act. is_fence (actions s act) \<and> t = tid (actions s act)
                                 \<and> is_seqcst (actions s act))
          in (case before_fence of
                None \<Rightarrow> Inr (find sc_fence (rev list))
              | Some b \<Rightarrow>
                  (case dropWhile (\<lambda>act. act \<noteq> b) (rev list) of
                     [] \<Rightarrow> Inl NullDereference
                   | r # rest \<Rightarrow> Inr (find sc_fence rest))))"

text \<open>
  The inner loop of \<^verbatim>\<open>w_modification_order\<close> over the actions of one thread at the
  location, newest first. The edge set holds pointers, and the write a read has read from
  may be null.
\<close>

fun w_mo_walk ::
  "model_execution \<Rightarrow> aid \<Rightarrow> aid option \<Rightarrow> aid list \<Rightarrow> aid option list \<Rightarrow> aid option list" where
  "w_mo_walk s cur last_sc_fence_thread_before [] edgeset = edgeset"
| "w_mo_walk s cur last_sc_fence_thread_before (act # rest) edgeset =
     (let c = actions s cur; a = actions s act
      in if act = cur
         then (if is_rmw c
               then (if reads_from c \<noteq> None then edgeset
                     else w_mo_walk s cur last_sc_fence_thread_before rest edgeset)
               else w_mo_walk s cur last_sc_fence_thread_before rest edgeset)
         else if (case last_sc_fence_thread_before of
                    None \<Rightarrow> False
                  | Some f \<Rightarrow> is_write a \<and> seq_number a < seq_number (actions s f))
         then edgeset @ [Some act]
         else if happens_before a c
         then (if is_write a then edgeset @ [Some act]
               else if is_read a then edgeset @ [reads_from a]
               else edgeset)
         else w_mo_walk s cur last_sc_fence_thread_before rest edgeset)"

text \<open>The outer loop over the threads; \<open>i\<close> is the index of the first list given.\<close>

fun w_mo_threads ::
  "env \<Rightarrow> model_execution \<Rightarrow> aid \<Rightarrow> aid option \<Rightarrow> nat \<Rightarrow> aid list list \<Rightarrow> aid option list
   \<Rightarrow> error + aid option list" where
  "w_mo_threads env s cur last_sc_fence_local i [] edgeset = Inr edgeset"
| "w_mo_threads env s cur last_sc_fence_local i (list # others) edgeset =
     (case (if last_sc_fence_local \<noteq> None \<and> int_to_id (int i) \<noteq> tid (actions s cur)
            then get_last_seq_cst_fence env s (int_to_id (int i)) last_sc_fence_local
            else Inr None) of
        Inl e \<Rightarrow> Inl e
      | Inr last_sc_fence_thread_before \<Rightarrow>
          w_mo_threads env s cur last_sc_fence_local (Suc i) others
            (w_mo_walk s cur last_sc_fence_thread_before (rev list) edgeset))"

definition w_modification_order :: "env \<Rightarrow> model_execution \<Rightarrow> aid \<Rightarrow> error + model_execution" where
  "w_modification_order env s cur =
     (let c = actions s cur
      in if \<not> is_write c then Inl AssertionFailure
         else
           let edgeset0 =
                 (if is_seqcst c
                  then (case get_last_seq_cst_write s cur of None \<Rightarrow> [] | Some l \<Rightarrow> [Some l])
                  else []);
               s1 = (if is_seqcst c
                     then s\<lparr>obj_last_sc_map := (obj_last_sc_map s)(location c \<mapsto> cur)\<rparr>
                     else s)
           in case get_last_seq_cst_fence env s1 (tid c) None of
                Inl e \<Rightarrow> Inl e
              | Inr last_sc_fence_local \<Rightarrow>
                  (case obj_thrd_map s1 (location c) of
                     None \<Rightarrow> Inl NullDereference
                   | Some thrd_lists \<Rightarrow>
                       (case w_mo_threads env s1 cur last_sc_fence_local 0 thrd_lists edgeset0 of
                          Inl e \<Rightarrow> Inl e
                        | Inr edgeset \<Rightarrow>
                            Inr (s1\<lparr>mo_graph := addEdges (mo_graph s1) edgeset (Some cur)\<rparr>))))"

text \<open>The state after the seq-cst part of \<^verbatim>\<open>w_modification_order\<close>.\<close>

definition sc_pre :: "model_execution \<Rightarrow> aid \<Rightarrow> model_execution" where
  "sc_pre s cur = (if is_seqcst (actions s cur)
                     then s\<lparr>obj_last_sc_map := (obj_last_sc_map s)(location (actions s cur) \<mapsto> cur)\<rparr>
                     else s)"

text \<open>
  An execution as far as the modification order of seq-cst writes is concerned: from a
  first state, writes are given to \<^verbatim>\<open>w_modification_order\<close> one after the other, and
  between them anything may happen that keeps the table \<^verbatim>\<open>obj_last_sc_map\<close> and the
  edges of the graph (in this file, \<^verbatim>\<open>w_modification_order\<close> alone writes to the table).
  The list tells, for each write in the order of processing, whether it was seq-cst and its
  location, both as they were when the write was processed.
\<close>

inductive sc_run ::
  "env \<Rightarrow> model_execution \<Rightarrow> (aid \<times> bool \<times> location) list \<Rightarrow> model_execution \<Rightarrow> bool" where
  sc_start: "sc_run env s0 [] s0"
| sc_write: "sc_run env s0 h s \<Longrightarrow> w_modification_order env s w = Inr s' \<Longrightarrow>
          sc_run env s0 (h @ [(w, is_seqcst (actions s w), location (actions s w))]) s'"
| sc_other: "sc_run env s0 h s \<Longrightarrow> obj_last_sc_map s' = obj_last_sc_map s \<Longrightarrow>
          set (edges (mo_graph s)) \<subseteq> set (edges (mo_graph s')) \<Longrightarrow>
          sc_run env s0 h s'"

subsection \<open>Modification order of a read\<close>

text \<open>
  One candidate edge of \<^verbatim>\<open>r_modification_order\<close>: with a path from \<open>rf\<close> to \<open>x\<close> the
  function returns false; otherwise \<open>x\<close> joins the prior set, unless the call only checks.
  The results of the loops are the value to return so far, the prior set,
  \<^verbatim>\<open>*canprune\<close> and \<^verbatim>\<open>prev_same_thread\<close>.
\<close>

definition r_mo_edge ::
  "model_execution \<Rightarrow> aid \<Rightarrow> aid \<Rightarrow> bool \<Rightarrow> aid list \<Rightarrow> bool \<Rightarrow> aid option
   \<Rightarrow> bool \<times> aid list \<times> bool \<times> aid option" where
  "r_mo_edge s rf x check_only priorset canprune prev =
     (if checkReachable (mo_graph s) (Some rf) (Some x) then (False, priorset, canprune, prev)
      else (True, (if \<not> check_only then priorset @ [x] else priorset), canprune, prev))"

text \<open>
  The inner loop over the actions of one thread at the location, newest first. \<open>i\<close> is
  the count of the outer loop, and the three fences are \<^verbatim>\<open>last_sc_fence_local\<close>,
  \<^verbatim>\<open>last_sc_fence_thread_local\<close> and \<^verbatim>\<open>last_sc_fence_thread_before\<close>.
\<close>

fun r_mo_walk ::
  "model_execution \<Rightarrow> aid \<Rightarrow> aid \<Rightarrow> bool \<Rightarrow> nat \<Rightarrow> aid option \<Rightarrow> aid option \<Rightarrow> aid option
   \<Rightarrow> aid list \<Rightarrow> aid list \<Rightarrow> bool \<Rightarrow> aid option
   \<Rightarrow> error + bool \<times> aid list \<times> bool \<times> aid option" where
  "r_mo_walk s cur rf check_only i fence_local fence_thread_local fence_thread_before
       [] priorset canprune prev = Inr (True, priorset, canprune, prev)"
| "r_mo_walk s cur rf check_only i fence_local fence_thread_local fence_thread_before
       (act # rest) priorset canprune prev =
     (let c = actions s cur; a = actions s act;
          before = (\<lambda>f. case f of None \<Rightarrow> False
                         | Some f' \<Rightarrow> seq_number a < seq_number (actions s f'))
      in if act = cur
         then r_mo_walk s cur rf check_only i fence_local fence_thread_local
                fence_thread_before rest priorset canprune prev
         else if act = rf
         then (if happens_before a c then Inr (True, priorset, canprune, prev)
               else r_mo_walk s cur rf check_only i fence_local fence_thread_local
                      fence_thread_before rest priorset canprune prev)
         else if is_write a \<and> is_seqcst c \<and> before fence_thread_local
         then Inr (r_mo_edge s rf act check_only priorset canprune prev)
         else if is_write a \<and> is_seqcst a \<and> before fence_local
         then Inr (r_mo_edge s rf act check_only priorset canprune prev)
         else if is_write a \<and> before fence_thread_before
         then Inr (r_mo_edge s rf act check_only priorset canprune prev)
         else if happens_before a c
         then (let prev' = (if i = 0 \<and> (case fence_local of
                                            None \<Rightarrow> True
                                          | Some f \<Rightarrow> seq_number (actions s f) < seq_number a)
                            then Some act else prev)
               in if is_write a
                  then Inr (r_mo_edge s rf act check_only priorset canprune prev')
                  else (case reads_from a of
                          None \<Rightarrow> Inl NullDereference
                        | Some prevrf \<Rightarrow>
                            if prevrf \<noteq> rf
                            then Inr (r_mo_edge s rf prevrf check_only priorset canprune prev')
                            else if tid a = tid c
                            then Inr (True, priorset,
                                      (if \<not> check_only then True else canprune), prev')
                            else Inr (True, priorset, canprune, prev')))
         else r_mo_walk s cur rf check_only i fence_local fence_thread_local
                fence_thread_before rest priorset canprune prev)"

text \<open>
  The outer loop, over the values of \<open>i\<close> still to come. \<open>t\<close> is the thread looked at,
  which starts at the thread of the read and goes round the vector of lists.
\<close>

fun r_mo_threads ::
  "env \<Rightarrow> model_execution \<Rightarrow> aid \<Rightarrow> aid \<Rightarrow> bool \<Rightarrow> aid list list \<Rightarrow> aid option
   \<Rightarrow> nat list \<Rightarrow> int \<Rightarrow> aid list \<Rightarrow> bool \<Rightarrow> aid option \<Rightarrow> error + bool \<times> aid list \<times> bool" where
  "r_mo_threads env s cur rf check_only thrd_lists fence_local [] t priorset canprune prev =
     Inr (True, priorset, canprune)"
| "r_mo_threads env s cur rf check_only thrd_lists fence_local (i # is) t priorset canprune prev =
     (let next_t = (if to_unsigned (t + 1) = length thrd_lists then 0 else t + 1)
      in case (if i \<noteq> 0 then get_last_seq_cst_fence env s (int_to_id t) None else Inr None) of
           Inl e \<Rightarrow> Inl e
         | Inr fence_thread_local \<Rightarrow>
             (case (if fence_local \<noteq> None
                    then get_last_seq_cst_fence env s (int_to_id t) fence_local
                    else Inr None) of
                Inl e \<Rightarrow> Inl e
              | Inr fence_thread_before \<Rightarrow>
                  if (case prev of
                        None \<Rightarrow> False
                      | Some p \<Rightarrow>
                          getClock (cv (actions s p)) t = getClock (cv (actions s cur)) t
                          \<and> (case fence_thread_local of
                                None \<Rightarrow> True
                              | Some f \<Rightarrow> seq_number (actions s f) < seq_number (actions s p)))
                  then r_mo_threads env s cur rf check_only thrd_lists fence_local is next_t
                         priorset canprune prev
                  else (case vec_at thrd_lists t of
                          Inl e \<Rightarrow> Inl e
                        | Inr list \<Rightarrow>
                            (case r_mo_walk s cur rf check_only i fence_local fence_thread_local
                                    fence_thread_before (rev list) priorset canprune prev of
                               Inl e \<Rightarrow> Inl e
                             | Inr (ok, priorset', canprune', prev') \<Rightarrow>
                                 if \<not> ok then Inr (False, priorset', canprune')
                                 else r_mo_threads env s cur rf check_only thrd_lists fence_local
                                        is next_t priorset' canprune' prev'))))"

definition r_modification_order ::
  "env \<Rightarrow> model_execution \<Rightarrow> aid \<Rightarrow> aid \<Rightarrow> aid list \<Rightarrow> bool \<Rightarrow> bool
   \<Rightarrow> error + bool \<times> aid list \<times> bool" where
  "r_modification_order env s cur rf priorset canprune check_only =
     (if \<not> is_read (actions s cur) then Inl AssertionFailure
      else case get_last_seq_cst_fence env s (tid (actions s cur)) None of
             Inl e \<Rightarrow> Inl e
           | Inr last_sc_fence_local \<Rightarrow>
               (case obj_thrd_map s (location (actions s cur)) of
                  None \<Rightarrow> Inl NullDereference
                | Some thrd_lists \<Rightarrow>
                    r_mo_threads env s cur rf check_only thrd_lists last_sc_fence_local
                      [0 ..< length thrd_lists] (tid (actions s cur)) priorset canprune None))"

subsection \<open>Release sequences and reads-from\<close>

text \<open>
  The first loop of \<^verbatim>\<open>get_hb_from_write\<close> follows the reads-from links of RMWs; nothing
  bounds it, so its result is an option, \<open>None\<close> when it does not end. It gives the write
  it stops at (null at the end of the links) and the vector \<^verbatim>\<open>processset\<close>.
\<close>

partial_function (option) hb_chain ::
  "(aid \<Rightarrow> model_action) \<Rightarrow> aid option \<Rightarrow> aid list \<Rightarrow> (error + aid option \<times> aid list) option" where
  "hb_chain acts rf processset =
     (case rf of
        None \<Rightarrow> Some (Inr (None, processset))
      | Some r \<Rightarrow>
          if \<not> is_write (acts r) then Some (Inl AssertionFailure)
          else if \<not> is_rmw (acts r) \<or> (is_acquire (acts r) \<and> is_release (acts r))
                  \<or> rfcv (acts r) \<noteq> None
          then Some (Inr (Some r, processset))
          else hb_chain acts (reads_from (acts r)) (processset @ [r]))"

text \<open>One round of the second loop: the vector after the write \<open>rf\<close>, and the execution.\<close>

definition hb_step ::
  "model_execution \<Rightarrow> aid \<Rightarrow> clockvector option \<Rightarrow> clockvector option \<times> model_execution" where
  "hb_step s rf vec =
     (let a = actions s rf
      in if rfcv a \<noteq> None then (rfcv a, s)
         else if is_acquire a \<and> is_release a then (Some (cv a), s)
         else if is_release a \<and> \<not> is_rmw a then (Some (cv a), s)
         else if is_release a
         then (let v = snd (ClockVector_merge (ClockVector_new vec None) (cv a))
               in (Some v, upd_action s rf (\<lambda>a. a\<lparr>rfcv := Some v\<rparr>)))
         else (case last_fence_release a of
                 None \<Rightarrow> (vec, upd_action s rf (\<lambda>a. a\<lparr>rfcv := vec\<rparr>))
               | Some f \<Rightarrow>
                   let v = (case vec of
                              None \<Rightarrow> cv (actions s f)
                            | Some v0 \<Rightarrow>
                                snd (ClockVector_merge (ClockVector_new (Some v0) None)
                                       (cv (actions s f))))
                   in (Some v, upd_action s rf (\<lambda>a. a\<lparr>rfcv := Some v\<rparr>))))"

fun hb_steps ::
  "model_execution \<Rightarrow> aid list \<Rightarrow> clockvector option \<Rightarrow> clockvector option \<times> model_execution" where
  "hb_steps s [] vec = (vec, s)"
| "hb_steps s (rf # rest) vec = (let (vec', s') = hb_step s rf vec in hb_steps s' rest vec')"

definition get_hb_from_write ::
  "model_execution \<Rightarrow> aid option \<Rightarrow> (error + clockvector option \<times> model_execution) option" where
  "get_hb_from_write s rf =
     (case hb_chain (actions s) rf [] of
        None \<Rightarrow> None
      | Some (Inl e) \<Rightarrow> Some (Inl e)
      | Some (Inr (None, processset)) \<Rightarrow> Some (Inl NullDereference)
      | Some (Inr (Some r, processset)) \<Rightarrow> Some (Inr (hb_steps s (r # rev processset) None)))"

text \<open>
  Modelled from the spec: \<^verbatim>\<open>set_read_from\<close> and \<^verbatim>\<open>get_return_value\<close> belong to the
  class \<^verbatim>\<open>ModelAction\<close>, which is not among the sources. The first sets the rf link;
  the second is, for a read, the value of the write it reads from.
\<close>

definition set_read_from :: "model_execution \<Rightarrow> aid \<Rightarrow> aid \<Rightarrow> model_execution" where
  "set_read_from s act rf = upd_action s act (\<lambda>a. a\<lparr>reads_from := Some rf\<rparr>)"

definition get_return_value :: "model_execution \<Rightarrow> aid \<Rightarrow> 64 word" where
  "get_return_value s act =
     (case reads_from (actions s act) of
        None \<Rightarrow> val (actions s act)
      | Some w \<Rightarrow> val (actions s w))"

definition read_from :: "model_execution \<Rightarrow> aid \<Rightarrow> aid \<Rightarrow> (error + model_execution) option" where
  "read_from s act rf =
     (if \<not> is_write (actions s rf) then Some (Inl AssertionFailure)
      else
        let s1 = set_read_from s act rf
        in if is_acquire (actions s1 act)
           then (case get_hb_from_write s1 (Some rf) of
                   None \<Rightarrow> None
                 | Some (Inl e) \<Rightarrow> Some (Inl e)
                 | Some (Inr (None, s2)) \<Rightarrow> Some (Inr s2)
                 | Some (Inr (Some vec, s2)) \<Rightarrow>
                     Some (Inr (upd_action s2 act
                                  (\<lambda>a. a\<lparr>cv := snd (ClockVector_merge (cv a) vec)\<rparr>))))
           else Some (Inr s1))"

text \<open>
  The reads-from links of the RMWs from a write lead, through writes, to a write at which
  the first loop of \<^verbatim>\<open>get_hb_from_write\<close> stops.
\<close>

inductive rf_chain_ends :: "(aid \<Rightarrow> model_action) \<Rightarrow> aid \<Rightarrow> bool" where
  chain_stop: "is_write (acts r) \<Longrightarrow>
     \<not> is_rmw (acts r) \<or> (is_acquire (acts r) \<and> is_release (acts r)) \<or> rfcv (acts r) \<noteq> None \<Longrightarrow>
     rf_chain_ends acts r"
| chain_step: "is_write (acts r) \<Longrightarrow> is_rmw (acts r) \<Longrightarrow>
     \<not> (is_acquire (acts r) \<and> is_release (acts r)) \<Longrightarrow> rfcv (acts r) = None \<Longrightarrow>
     reads_from (acts r) = Some r' \<Longrightarrow> rf_chain_ends acts r' \<Longrightarrow> rf_chain_ends acts r"

text \<open>Two executions that differ at most in the cached vectors \<^verbatim>\<open>rfcv\<close> of their actions.\<close>

definition same_but_rfcv :: "model_execution \<Rightarrow> model_execution \<Rightarrow> bool" where
  "same_but_rfcv s s' =
     (\<exists>f. s' = s\<lparr>actions := (\<lambda>a. (actions s a)\<lparr>rfcv := f a\<rparr>)\<rparr>)"

subsection \<open>Non-atomic stores\<close>




subsection \<open>process_read\<close>

text \<open>
  What \<^verbatim>\<open>process_read\<close> does once \<^verbatim>\<open>r_modification_order\<close> accepts the write \<open>rf\<close>:
  the edges of the prior set, the rf link, the return value of the thread, and the pruning
  of the thread's list.
\<close>

definition add_prior_edges :: "model_execution \<Rightarrow> aid \<Rightarrow> aid list \<Rightarrow> model_execution" where
  "add_prior_edges s rf priorset =
     s\<lparr>mo_graph := foldl (\<lambda>g p. addEdge g (Some p) (Some rf)) (mo_graph s) priorset\<rparr>"

definition process_read_commit ::
  "model_execution \<Rightarrow> aid \<Rightarrow> aid \<Rightarrow> aid list \<Rightarrow> bool \<Rightarrow> (error + bool \<times> model_execution) option" where
  "process_read_commit s cur rf priorset canprune =
     (let s1 = add_prior_edges s rf priorset
      in case read_from s1 cur rf of
           None \<Rightarrow> None
         | Some (Inl e) \<Rightarrow> Some (Inl e)
         | Some (Inr s2) \<Rightarrow>
             (case set_return_value s2 (tid (actions s2 cur)) (get_return_value s2 cur) of
                Inl e \<Rightarrow> Some (Inl e)
              | Inr s3 \<Rightarrow>
                  if canprune \<and> atype (actions s3 cur) = ATOMIC_READ
                  then (let t = id_to_int (tid (actions s3 cur));
                            loc = location (actions s3 cur)
                        in case obj_thrd_map s3 loc of
                             None \<Rightarrow> Some (Inl NullDereference)
                           | Some vec \<Rightarrow>
                               (case vec_at vec t of
                                  Inl e \<Rightarrow> Some (Inl e)
                                | Inr l \<Rightarrow>
                                    if l = [] then Some (Inl NullDereference)
                                    else Some (Inr (True,
                                           s3\<lparr>obj_thrd_map :=
                                                (obj_thrd_map s3)
                                                  (loc \<mapsto> vec[to_unsigned t := butlast l])\<rparr>))))
                  else Some (Inr (True, s3))))"

text \<open>
  The loop \<^verbatim>\<open>while(true)\<close>. A write that \<^verbatim>\<open>r_modification_order\<close> rejects is
  overwritten by the last element of \<open>rf_set\<close>, the last element is dropped, and the
  prior set is cleared.
\<close>

function process_read_loop ::
  "env \<Rightarrow> model_execution \<Rightarrow> aid \<Rightarrow> aid list \<Rightarrow> aid list \<Rightarrow> (error + bool \<times> model_execution) option" where
  "process_read_loop env s cur rf_set priorset =
     (let index = selectWrite env cur rf_set
      in if index = - 1 then Some (Inr (False, s))
         else (case vec_at rf_set index of
                 Inl e \<Rightarrow> Some (Inl e)
               | Inr rf \<Rightarrow>
                   (case r_modification_order env s cur rf priorset False False of
                      Inl e \<Rightarrow> Some (Inl e)
                    | Inr (ok, priorset', canprune) \<Rightarrow>
                        if ok then process_read_commit s cur rf priorset' canprune
                        else process_read_loop env s cur
                               (butlast (rf_set[to_unsigned index := last rf_set])) [])))"
  by pat_completeness auto
termination
proof (relation "measure (\<lambda>(env, s, cur, rf_set, priorset). length rf_set)")
  show "wf (measure (\<lambda>(env, s, cur, rf_set, priorset). length rf_set))" by simp
next
  fix env :: env and s :: model_execution and cur :: aid and rf_set priorset :: "aid list"
    and index :: int and rf :: aid
  assume "vec_at rf_set index = Inr rf"
  then have "rf_set \<noteq> []" by (auto simp add: vec_at_def Let_def split: if_splits)
  then show "((env, s, cur, butlast (rf_set[to_unsigned index := last rf_set]), []),
              (env, s, cur, rf_set, priorset))
             \<in> measure (\<lambda>(env, s, cur, rf_set, priorset). length rf_set)"
    by simp
qed



subsection \<open>Concrete executions\<close>

text \<open>A relaxed atomic read by thread 0, the starting point of the concrete actions below.\<close>

definition act0 :: model_action where
  "act0 = \<lparr>atype = ATOMIC_READ, morder = memory_order_relaxed, location = 0, val = 0,
           asize = 8, tid = 0, seq_number = 0, cv = [], reads_from = None, rfcv = None,
           last_fence_release = None, mutex = None, try_lock = False\<rparr>"

definition thread0 :: thread where
  "thread0 = \<lparr>thread_id = 0, is_model_thread = True, pending = None, waiting_on = None,
              return_value = 0\<rparr>"

text \<open>
  The execution as the constructor leaves it: \<^verbatim>\<open>thread_map(2)\<close> with the model thread
  added at index 0, \<^verbatim>\<open>thrd_last_action(1)\<close>, and every table empty.
\<close>

definition initial_execution :: model_execution where
  "initial_execution =
     \<lparr>actions = (\<lambda>a. act0), next_action = 0, thread_map = [Some thread0, None],
      next_thread_id = 1, used_sequence_numbers = 0, bugs = [], asserted = False,
      action_trace = [], obj_map = (\<lambda>l. None), condvar_waiters_map = (\<lambda>l. None),
      obj_thrd_map = (\<lambda>l. None), obj_wr_thrd_map = (\<lambda>l. None),
      obj_last_sc_map = (\<lambda>l. None), thrd_last_action = [None],
      thrd_last_fence_release = [], mo_graph = \<lparr>edges = [], rmw_of = (\<lambda>a. None)\<rparr>,
      locked = (\<lambda>m. None), calls = []\<rparr>"

definition env0 :: env where
  "env0 = \<lparr>FENCE_LOCATION = 7, is_enabled = (\<lambda>t. False), selectWrite = (\<lambda>r rf_set. - 1),
           selectNotify = (\<lambda>ws. 1), shouldWait = (\<lambda>w. True), hasNonAtomicStore = (\<lambda>l. False),
           getStoreThreadAndClock = (\<lambda>l. (0, 0)), memory = (\<lambda>l. 0)\<rparr>"

text \<open>User threads 1 and 2; thread 1 is suspended with action 5 pending.\<close>

definition two_threads :: model_execution where
  "two_threads =
     initial_execution
       \<lparr>thread_map :=
          [Some thread0,
           Some (thread0\<lparr>thread_id := 1, is_model_thread := False, pending := Some 5\<rparr>),
           Some (thread0\<lparr>thread_id := 2, is_model_thread := False\<rparr>)],
        next_thread_id := 3\<rparr>"

text \<open>Actions 0, 1, 2 and 3 with the sequence numbers 1, 1, 2 and 1.\<close>

definition seq_acts :: "aid \<Rightarrow> model_action" where
  "seq_acts a = act0\<lparr>seq_number := (if a = 2 then 2 else 1)\<rparr>"

text \<open>
  A mutex at location 3. Action 0 is a trylock of it by thread 1, action 2 an earlier
  unlock of it by thread 2; both are in the list of the location, and the mutex is free.
\<close>

definition mutex_actions :: "aid \<Rightarrow> model_action" where
  "mutex_actions a =
     (if a = 0
      then act0\<lparr>atype := ATOMIC_TRYLOCK, location := 3, mutex := Some 3, tid := 1,
                seq_number := 5, cv := [0, 5]\<rparr>
      else act0\<lparr>atype := ATOMIC_UNLOCK, location := 3, mutex := Some 3, tid := 2,
                seq_number := 4, cv := [0, 0, 4]\<rparr>)"

definition mutex_exec :: model_execution where
  "mutex_exec = two_threads\<lparr>actions := mutex_actions, obj_map := (\<lambda>l. None)(3 \<mapsto> [2, 0])\<rparr>"

text \<open>A notify-one on the condition variable at location 9, which nobody has waited on.\<close>

definition notify_exec :: model_execution where
  "notify_exec =
     two_threads\<lparr>actions := (\<lambda>a. act0\<lparr>atype := ATOMIC_NOTIFY_ONE, location := 9, tid := 1\<rparr>)\<rparr>"

text \<open>
  A seq-cst read (action 0, thread 1) of location 6. Thread 0 has written it once, relaxed
  (action 5); thread 2 has written it three times: seq-cst (action 2), relaxed (action 3)
  and seq-cst (action 4, the last seq-cst write). No write happens before the read.
\<close>

definition sc_actions :: "aid \<Rightarrow> model_action" where
  "sc_actions a =
     (if a = 0 then act0\<lparr>morder := memory_order_seq_cst, location := 6, tid := 1,
                        seq_number := 9, cv := [0, 9]\<rparr>
      else if a = 2 then act0\<lparr>atype := ATOMIC_WRITE, morder := memory_order_seq_cst,
                        location := 6, tid := 2, seq_number := 3, cv := [0, 0, 3]\<rparr>
      else if a = 3 then act0\<lparr>atype := ATOMIC_WRITE, location := 6, tid := 2,
                        seq_number := 4, cv := [0, 0, 4]\<rparr>
      else if a = 4 then act0\<lparr>atype := ATOMIC_WRITE, morder := memory_order_seq_cst,
                        location := 6, tid := 2, seq_number := 5, cv := [0, 0, 5]\<rparr>
      else act0\<lparr>atype := ATOMIC_UNINIT, location := 6, tid := 0, seq_number := 1, cv := [1]\<rparr>)"

definition sc_exec :: model_execution where
  "sc_exec =
     two_threads\<lparr>actions := sc_actions,
                 obj_wr_thrd_map := (\<lambda>l. None)(6 \<mapsto> [[5], [], [2, 3, 4]]),
                 obj_thrd_map := (\<lambda>l. None)(6 \<mapsto> [[5], [], [2, 3, 4]]),
                 obj_map := (\<lambda>l. None)(6 \<mapsto> [5, 2, 3, 4]),
                 obj_last_sc_map := (\<lambda>l. None)(6 \<mapsto> 4)\<rparr>"

text \<open>
  An acquire read (action 0, thread 1) of location 6, after a release write by thread 0
  (action 5) and a relaxed write by thread 2 (action 4) that happens before the read.
  There is no fence. The fuzzer of \<open>env1\<close> always chooses the first candidate.
\<close>

definition read_actions :: "aid \<Rightarrow> model_action" where
  "read_actions a =
     (if a = 0 then act0\<lparr>morder := memory_order_acquire, location := 6, tid := 1,
                        seq_number := 9, cv := [0, 9, 5]\<rparr>
      else if a = 4 then act0\<lparr>atype := ATOMIC_WRITE, location := 6, tid := 2,
                        seq_number := 5, cv := [0, 0, 5]\<rparr>
      else act0\<lparr>atype := ATOMIC_WRITE, morder := memory_order_release, location := 6,
                tid := 0, seq_number := 1, cv := [1]\<rparr>)"

definition read_exec :: model_execution where
  "read_exec =
     two_threads\<lparr>actions := read_actions,
                 obj_wr_thrd_map := (\<lambda>l. None)(6 \<mapsto> [[5], [], [4]]),
                 obj_thrd_map := (\<lambda>l. None)(6 \<mapsto> [[5], [], [4]]),
                 obj_map := (\<lambda>l. None)(6 \<mapsto> [5, 4])\<rparr>"

definition env1 :: env where
  "env1 = env0\<lparr>selectWrite := (\<lambda>r rf_set. 0)\<rparr>"



section \<open>Properties\<close>

subsection \<open>valequals\<close>

lemma ucast_down_eq_iff:
  assumes "LENGTH('b::len) \<le> LENGTH('a::len)"
  shows "((ucast (a :: 'a word) :: 'b word) = ucast (b :: 'a word))
         = (take_bit LENGTH('b) a = take_bit LENGTH('b) b)"
proof
  assume h: "(ucast a :: 'b word) = ucast b"
  show "take_bit LENGTH('b) a = take_bit LENGTH('b) b"
  proof (rule bit_eqI)
    fix n
    have "bit (ucast a :: 'b word) n = bit (ucast b :: 'b word) n" using h by simp
    then show "bit (take_bit LENGTH('b) a) n = bit (take_bit LENGTH('b) b) n"
      using assms by (auto simp add: bit_ucast_iff bit_take_bit_iff)
  qed
next
  assume h: "take_bit LENGTH('b) a = take_bit LENGTH('b) b"
  show "(ucast a :: 'b word) = ucast b"
  proof (rule bit_eqI)
    fix n
    have "bit (take_bit LENGTH('b) a) n = bit (take_bit LENGTH('b) b) n" using h by simp
    then show "bit (ucast a :: 'b word) n = bit (ucast b :: 'b word) n"
      using assms by (auto simp add: bit_ucast_iff bit_take_bit_iff)
  qed
qed

lemma ucast8_eq_iff:
  "((ucast (a :: 64 word) :: 8 word) = ucast (b :: 64 word)) = (take_bit 8 a = take_bit 8 b)"
  using ucast_down_eq_iff [where 'a = 64 and 'b = 8, of a b] by simp

lemma ucast16_eq_iff:
  "((ucast (a :: 64 word) :: 16 word) = ucast (b :: 64 word)) = (take_bit 16 a = take_bit 16 b)"
  using ucast_down_eq_iff [where 'a = 64 and 'b = 16, of a b] by simp

lemma ucast32_eq_iff:
  "((ucast (a :: 64 word) :: 32 word) = ucast (b :: 64 word)) = (take_bit 32 a = take_bit 32 b)"
  using ucast_down_eq_iff [where 'a = 64 and 'b = 32, of a b] by simp

lemma take_bit64_id: "take_bit 64 (a :: 64 word) = a"
  by (simp add: take_bit_word_eq_self)

text \<open>
  C7. \<open>valequals val1 val2 size\<close> is true exactly when the two values agree on their low
  \<open>size * 8\<close> bits, for each size among 1, 2, 4 and 8; for every other size the
  \<^verbatim>\<open>ASSERT(0)\<close> of the default branch fails.
\<close>

theorem valequals_exact:
  "(\<forall>sz \<in> {1, 2, 4, 8}.
      valequals val1 val2 sz = Inr (take_bit (nat (sz * 8)) val1 = take_bit (nat (sz * 8)) val2))
   \<and> (\<forall>sz. sz \<notin> {1, 2, 4, 8} \<longrightarrow> valequals val1 val2 sz = Inl AssertionFailure)"
  by (simp add: valequals_def ucast8_eq_iff ucast16_eq_iff ucast32_eq_iff take_bit64_id)

theorem valequals_exact_witness:
  "valequals 0x1FF 0x2FF 1 = Inr True \<and> valequals 0x1FF 0x2FF 2 = Inr False
   \<and> valequals 0x1FF 0x2FF 3 = Inl AssertionFailure"
  using valequals_exact [of "0x1FF" "0x2FF"] by (simp add: valequals_def)

subsection \<open>insertIntoActionList\<close>

lemma insert_walk_None:
  "(\<forall>r \<in> set rs. seq_number (acts r) \<noteq> seq_number (acts act)) \<Longrightarrow>
   insert_walk acts rs act passed = None"
  by (induction rs arbitrary: passed) auto

lemma insert_walk_split:
  "seq_number (acts m) = seq_number (acts act) \<Longrightarrow>
   \<forall>x \<in> set post. seq_number (acts x) \<noteq> seq_number (acts act) \<Longrightarrow>
   insert_walk acts (rev (pre @ [m] @ post)) act passed = Some (pre @ [m, act] @ post @ passed, m)"
proof (induction post arbitrary: passed rule: rev_induct)
  case Nil
  then show ?case by simp
next
  case (snoc x xs)
  then show ?case by simp
qed

lemma insertIntoActionList_split:
  assumes "seq_number (acts m) = seq_number (acts act)"
    and "\<forall>x \<in> set post. seq_number (acts x) \<noteq> seq_number (acts act)"
  shows "insertIntoActionList acts (pre @ [m] @ post) act = pre @ [m, act] @ post"
proof (cases post rule: rev_cases)
  case Nil
  with assms show ?thesis by (simp add: insertIntoActionList_def)
next
  case (snoc ys y)
  have w: "insert_walk acts (rev (pre @ [m] @ post)) act []
           = Some (pre @ [m, act] @ post @ [], m)"
    using assms by (rule insert_walk_split)
  have "seq_number (acts y) \<noteq> seq_number (acts act)" using assms(2) snoc by simp
  moreover have "rev (pre @ [m] @ post) = y # rev ys @ m # rev pre" using snoc by simp
  ultimately show ?thesis using w snoc
    by (simp add: insertIntoActionList_def)
qed

lemma insertIntoActionList_no_match:
  assumes "list \<noteq> []" and "\<forall>x \<in> set list. seq_number (acts x) \<noteq> seq_number (acts act)"
  shows "insertIntoActionList acts list act = list"
proof -
  obtain r rs where r: "rev list = r # rs" using assms(1) by (cases "rev list") auto
  then have "r \<in> set list" by (metis list.set_intros(1) set_rev)
  then have "seq_number (acts r) \<noteq> seq_number (acts act)" using assms(2) by blast
  moreover have "insert_walk acts (rev list) act [] = None"
    using assms(2) by (intro insert_walk_None) simp
  ultimately show ?thesis using r by (simp add: insertIntoActionList_def)
qed

text \<open>
  C9. \<open>insertIntoActionList list act\<close> appends \<open>act\<close> to an empty list; when some element
  has the sequence number of \<open>act\<close>, it puts \<open>act\<close> right after the first such element that
  the walk from the tail meets, which is the last one in list order, so that the actions of
  one sequence number stay in their order of arrival; and when the list is not empty and no
  element has that sequence number, it leaves the list as it is, without \<open>act\<close>.
\<close>

theorem insertIntoActionList_cases:
  "insertIntoActionList acts [] act = [act]
   \<and> (\<forall>pre m post.
        seq_number (acts m) = seq_number (acts act)
        \<and> (\<forall>x \<in> set post. seq_number (acts x) \<noteq> seq_number (acts act))
        \<longrightarrow> insertIntoActionList acts (pre @ [m] @ post) act = pre @ [m, act] @ post
            \<and> filter (\<lambda>x. seq_number (acts x) = seq_number (acts act))
                 (insertIntoActionList acts (pre @ [m] @ post) act)
              = filter (\<lambda>x. seq_number (acts x) = seq_number (acts act)) (pre @ [m] @ post) @ [act])
   \<and> (\<forall>list.
        list \<noteq> [] \<and> (\<forall>x \<in> set list. seq_number (acts x) \<noteq> seq_number (acts act))
        \<longrightarrow> insertIntoActionList acts list act = list)"
proof (intro conjI allI impI)
  show "insertIntoActionList acts [] act = [act]"
    by (simp add: insertIntoActionList_def)
next
  fix pre m post
  assume h: "seq_number (acts m) = seq_number (acts act)
             \<and> (\<forall>x \<in> set post. seq_number (acts x) \<noteq> seq_number (acts act))"
  then show e: "insertIntoActionList acts (pre @ [m] @ post) act = pre @ [m, act] @ post"
    by (intro insertIntoActionList_split) simp_all
  have "filter (\<lambda>x. seq_number (acts x) = seq_number (acts act)) post = []"
    using h by (simp add: filter_empty_conv)
  then show "filter (\<lambda>x. seq_number (acts x) = seq_number (acts act))
               (insertIntoActionList acts (pre @ [m] @ post) act)
             = filter (\<lambda>x. seq_number (acts x) = seq_number (acts act)) (pre @ [m] @ post) @ [act]"
    using h e by simp
next
  fix list
  assume "list \<noteq> [] \<and> (\<forall>x \<in> set list. seq_number (acts x) \<noteq> seq_number (acts act))"
  then show "insertIntoActionList acts list act = list"
    by (simp add: insertIntoActionList_no_match)
qed

theorem insertIntoActionList_cases_witness:
  "insertIntoActionList seq_acts [] 3 = [3]
   \<and> insertIntoActionList seq_acts [0, 1, 2] 3 = [0, 1, 3, 2]
   \<and> insertIntoActionList seq_acts [2] 3 = [2]"
proof -
  have a: "seq_number (seq_acts 1) = seq_number (seq_acts 3)
           \<and> (\<forall>x \<in> set [2]. seq_number (seq_acts x) \<noteq> seq_number (seq_acts 3))"
    by (simp add: seq_acts_def)
  have b: "[2] \<noteq> [] \<and> (\<forall>x \<in> set [2]. seq_number (seq_acts x) \<noteq> seq_number (seq_acts 3))"
    by (simp add: seq_acts_def)
  from insertIntoActionList_cases [of seq_acts 3] a b
  have "insertIntoActionList seq_acts [] 3 = [3]"
    and "insertIntoActionList seq_acts ([0] @ [1] @ [2]) 3 = [0] @ [1, 3] @ [2]"
    and "insertIntoActionList seq_acts [2] 3 = [2]"
    by blast+
  then show ?thesis by simp
qed

subsection \<open>Thread lookup\<close>

lemma to_unsigned_neg: "- (2 ^ 31) \<le> t \<Longrightarrow> t < 0 \<Longrightarrow> to_unsigned t = nat (t + 2 ^ 32)"
proof -
  assume a: "- (2 ^ 31) \<le> t" "t < 0"
  have "t mod 2 ^ 32 = (t + 2 ^ 32) mod 2 ^ 32" by simp
  also have "\<dots> = t + 2 ^ 32" using a by (intro mod_pos_pos_trivial) simp_all
  finally show ?thesis by (simp add: to_unsigned_def)
qed

lemma to_unsigned_nonneg: "0 \<le> t \<Longrightarrow> t < 2 ^ 31 \<Longrightarrow> to_unsigned t = nat t"
  unfolding to_unsigned_def by simp

lemma to_signed_small: "n < 2 ^ 31 \<Longrightarrow> to_signed n = int n"
  unfolding to_signed_def Let_def by simp

lemma get_thread_outside:
  assumes "- (2 ^ 31) \<le> t" "t < 2 ^ 31" "length (thread_map s) \<le> 2 ^ 31"
    and "t < 0 \<or> int (length (thread_map s)) \<le> t"
  shows "get_thread s t = None"
proof (cases "t < 0")
  case True
  then have "to_unsigned t = nat (t + 2 ^ 32)" using assms(1) by (simp add: to_unsigned_neg)
  moreover have "nat (t + 2 ^ 32) \<ge> 2 ^ 31" using assms(1) by simp
  ultimately show ?thesis using assms(3) by (simp add: get_thread_def id_to_int_def)
next
  case False
  then have "to_unsigned t = nat t" using assms(2) by (simp add: to_unsigned_nonneg)
  moreover have "\<not> nat t < length (thread_map s)" using assms(4) False by linarith
  ultimately show ?thesis by (simp add: get_thread_def id_to_int_def)
qed

lemma get_last_action_beyond:
  assumes "length (thrd_last_action s) < 2 ^ 31" "int (length (thrd_last_action s)) \<le> t"
  shows "get_last_action s t = Inr None"
  using assms by (simp add: get_last_action_def id_to_int_def to_signed_small)

lemma get_last_fence_release_beyond:
  assumes "length (thrd_last_fence_release s) < 2 ^ 31"
    and "int (length (thrd_last_fence_release s)) \<le> t"
  shows "get_last_fence_release s t = Inr None"
  using assms by (simp add: get_last_fence_release_def id_to_int_def to_signed_small)

text \<open>
  What holds of the three lookups, for every thread id (a 32-bit \<^verbatim>\<open>int\<close>):
  \<^verbatim>\<open>get_thread\<close> gives a null pointer whenever the id is outside the thread map, negative
  ids included; \<^verbatim>\<open>get_last_action\<close> and \<^verbatim>\<open>get_last_fence_release\<close> give a null
  pointer for every id at or past the end of their tables.
\<close>

lemma thread_lookups_in_range:
  assumes "- (2 ^ 31) \<le> t" and "t < 2 ^ 31"
    and "length (thread_map s) \<le> 2 ^ 31"
    and "length (thrd_last_action s) < 2 ^ 31"
    and "length (thrd_last_fence_release s) < 2 ^ 31"
  shows "(t < 0 \<or> int (length (thread_map s)) \<le> t \<longrightarrow> get_thread s t = None)
       \<and> (int (length (thrd_last_action s)) \<le> t \<longrightarrow> get_last_action s t = Inr None)
       \<and> (int (length (thrd_last_fence_release s)) \<le> t
            \<longrightarrow> get_last_fence_release s t = Inr None)"
  using assms
  by (simp add: get_thread_outside get_last_action_beyond get_last_fence_release_beyond)

lemma thread_lookups_in_range_example:
  "get_thread initial_execution (- 1) = None \<and> get_thread initial_execution 2 = None
   \<and> get_last_action initial_execution 1 = Inr None
   \<and> get_last_fence_release initial_execution 0 = Inr None"
proof -
  have l: "length (thread_map initial_execution) = 2"
    "length (thrd_last_action initial_execution) = 1"
    "length (thrd_last_fence_release initial_execution) = 0"
    by (simp_all add: initial_execution_def)
  show ?thesis
    using thread_lookups_in_range [of "- 1" initial_execution]
      thread_lookups_in_range [of 2 initial_execution]
      thread_lookups_in_range [of 1 initial_execution]
      thread_lookups_in_range [of 0 initial_execution]
    by (simp add: l)
qed

text \<open>
  C10. The claim asks that a lookup of an unknown thread gives a null pointer. The code
  does not do so at a negative id: \<^verbatim>\<open>get_last_action\<close> and
  \<^verbatim>\<open>get_last_fence_release\<close> compare the id as a signed \<^verbatim>\<open>int\<close> with the size of
  their table, a negative id passes the test, and the table is read outside its bounds.
  \<^verbatim>\<open>get_thread\<close>, which converts the id to \<^verbatim>\<open>unsigned int\<close> first, gives the null
  pointer there. In the execution that the constructor builds, at the id -1:
\<close>

theorem get_last_action_negative_id:
  "get_last_action initial_execution (- 1) = Inl OutOfBounds
   \<and> get_last_fence_release initial_execution (- 1) = Inl OutOfBounds
   \<and> get_thread initial_execution (- 1) = None"
  by (simp add: get_last_action_def get_last_fence_release_def get_thread_def
      initial_execution_def id_to_int_def to_signed_def vec_at_def to_unsigned_def)

subsection \<open>Deadlock\<close>

lemma deadlock_loop_eq:
  "\<forall>i \<in> set is. get_thread s (int_to_id (int i)) \<noteq> None \<Longrightarrow>
   deadlock_loop env s is b =
     Inr ((\<forall>i \<in> set is. \<not> is_enabled env (int_to_id (int i)))
          \<and> (b \<or> (\<exists>i \<in> set is. \<exists>th. get_thread s (int_to_id (int i)) = Some th
                                   \<and> \<not> is_model_thread th \<and> pending th \<noteq> None)))"
proof (induction "is" arbitrary: b)
  case Nil
  then show ?case by simp
next
  case (Cons i "is")
  then obtain th where th: "get_thread s (int_to_id (int i)) = Some th" by auto
  show ?case
  proof (cases "is_enabled env (int_to_id (int i))")
    case True
    then show ?thesis by simp
  next
    case False
    have "deadlock_loop env s (i # is) b =
          deadlock_loop env s is (if \<not> is_model_thread th \<and> pending th \<noteq> None then True else b)"
      using False th by simp
    also have "\<dots> = Inr ((\<forall>i \<in> set is. \<not> is_enabled env (int_to_id (int i))) \<and>
        ((if \<not> is_model_thread th \<and> pending th \<noteq> None then True else b)
         \<or> (\<exists>i \<in> set is. \<exists>th. get_thread s (int_to_id (int i)) = Some th
                            \<and> \<not> is_model_thread th \<and> pending th \<noteq> None)))"
      using Cons.prems by (intro Cons.IH) simp
    finally show ?thesis using False th by auto
  qed
qed

text \<open>
  C5. When every thread id below \<^verbatim>\<open>get_num_threads()\<close> has its thread in the thread
  map, \<^verbatim>\<open>is_deadlocked()\<close> is true exactly when no thread is enabled and some thread that
  is not the model thread has a pending action; so it is false as soon as one thread is
  enabled.
\<close>

theorem is_deadlocked_iff:
  assumes "\<forall>i < get_num_threads s. get_thread s (int_to_id (int i)) \<noteq> None"
  shows "is_deadlocked env s =
     Inr ((\<forall>i < get_num_threads s. \<not> is_enabled env (int_to_id (int i)))
          \<and> (\<exists>i < get_num_threads s. \<exists>th. get_thread s (int_to_id (int i)) = Some th
                \<and> \<not> is_model_thread th \<and> pending th \<noteq> None))"
proof -
  have "\<forall>i \<in> set [0 ..< get_num_threads s]. get_thread s (int_to_id (int i)) \<noteq> None"
    using assms by simp
  then show ?thesis
    unfolding is_deadlocked_def by (simp add: deadlock_loop_eq Ball_def Bex_def)
qed

lemma two_threads_registered:
  "\<forall>i < get_num_threads two_threads. get_thread two_threads (int_to_id (int i)) \<noteq> None"
proof -
  have n: "get_num_threads two_threads = 3"
    by (simp add: get_num_threads_def two_threads_def)
  show ?thesis
    unfolding n
    by (auto simp add: get_thread_def two_threads_def int_to_id_def id_to_int_def
        to_unsigned_def initial_execution_def less_Suc_eq numeral_3_eq_3)
qed

theorem is_deadlocked_iff_witness:
  "is_deadlocked env0 two_threads = Inr True
   \<and> is_deadlocked (env0\<lparr>is_enabled := (\<lambda>t. t = 2)\<rparr>) two_threads = Inr False"
proof -
  have n: "get_num_threads two_threads = 3"
    by (simp add: get_num_threads_def two_threads_def)
  have t1: "get_thread two_threads (int_to_id (int 1))
            = Some (thread0\<lparr>thread_id := 1, is_model_thread := False, pending := Some 5\<rparr>)"
    by (simp add: get_thread_def two_threads_def int_to_id_def id_to_int_def to_unsigned_def
        initial_execution_def)
  have a: "is_deadlocked env0 two_threads = Inr True"
    unfolding is_deadlocked_iff [OF two_threads_registered, of env0] n
    using t1 by (auto simp add: env0_def intro!: exI[of _ "1::nat"])
  have b: "is_deadlocked (env0\<lparr>is_enabled := (\<lambda>t. t = 2)\<rparr>) two_threads = Inr False"
    unfolding is_deadlocked_iff [OF two_threads_registered, of "env0\<lparr>is_enabled := (\<lambda>t. t = 2)\<rparr>"] n
    by (auto simp add: int_to_id_def intro!: exI[of _ "2::nat"])
  show ?thesis using a b by simp
qed

subsection \<open>Mutexes and condition variables\<close>

lemma get_thread_upd_action: "get_thread (upd_action s a f) t = get_thread s t"
  by (simp add: get_thread_def upd_action_def Let_def)

lemma get_thread_frame: "thread_map s' = thread_map s \<Longrightarrow> get_thread s' t = get_thread s t"
  by (simp add: get_thread_def Let_def)

lemma set_return_value_ok:
  "get_thread s t = Some th \<Longrightarrow>
   set_return_value s t v =
     Inr (s\<lparr>thread_map := (thread_map s)[to_unsigned (id_to_int t) := Some (th\<lparr>return_value := v\<rparr>)]\<rparr>)"
  by (simp add: set_return_value_def)

lemma get_last_unlock_frame:
  assumes "obj_map s' = obj_map s" "\<And>a. atype (actions s' a) = atype (actions s a)"
    "location (actions s' cur) = location (actions s cur)"
  shows "get_last_unlock s' cur = get_last_unlock s cur"
proof -
  have "(\<lambda>a. is_unlock (actions s' a) \<or> is_wait (actions s' a))
        = (\<lambda>a. is_unlock (actions s a) \<or> is_wait (actions s a))"
    using assms(2) by (simp add: is_unlock_def is_wait_def)
  then show ?thesis by (simp only: get_last_unlock_def assms(1) assms(3))
qed

lemma process_mutex_trylock_taken:
  assumes "atype (actions s cur) = ATOMIC_TRYLOCK"
    and "get_mutex (actions s cur) = Some m"
    and "get_thread s (tid (actions s cur)) = Some th"
    and "locked s m \<noteq> None"
  shows "process_mutex env s cur =
     Inr (False, (upd_action s cur (\<lambda>a. a\<lparr>try_lock := False\<rparr>))
        \<lparr>thread_map := (thread_map s)[to_unsigned (id_to_int (tid (actions s cur))) :=
             Some (th\<lparr>return_value := 0\<rparr>)]\<rparr>)"
proof -
  obtain y where y: "locked s m = Some y" using assms(4) by auto
  have g: "get_thread (upd_action s cur (\<lambda>a. a\<lparr>try_lock := False\<rparr>)) (tid (actions s cur)) = Some th"
    using assms(3) by (simp add: get_thread_upd_action)
  have "process_mutex env s cur =
      (case set_return_value (upd_action s cur (\<lambda>a. a\<lparr>try_lock := False\<rparr>)) (tid (actions s cur)) 0 of
         Inl e \<Rightarrow> Inl e | Inr s2 \<Rightarrow> Inr (False, s2))"
    using assms(1,2) y by (simp add: process_mutex_def Let_def)
  also have "\<dots> = Inr (False, (upd_action s cur (\<lambda>a. a\<lparr>try_lock := False\<rparr>))
        \<lparr>thread_map := (thread_map (upd_action s cur (\<lambda>a. a\<lparr>try_lock := False\<rparr>)))
            [to_unsigned (id_to_int (tid (actions s cur))) := Some (th\<lparr>return_value := 0\<rparr>)]\<rparr>)"
    by (simp add: set_return_value_ok [OF g])
  finally show ?thesis by (simp add: upd_action_def)
qed

lemma process_mutex_trylock_free:
  assumes "atype (actions s cur) = ATOMIC_TRYLOCK"
    and "get_mutex (actions s cur) = Some m"
    and "get_thread s (tid (actions s cur)) = Some th"
    and "locked s m = None"
  shows "process_mutex env s cur =
     lock_case ((upd_action s cur (\<lambda>a. a\<lparr>try_lock := True\<rparr>))
        \<lparr>thread_map := (thread_map s)[to_unsigned (id_to_int (tid (actions s cur))) :=
             Some (th\<lparr>return_value := 1\<rparr>)]\<rparr>) cur"
proof -
  have g: "get_thread (upd_action s cur (\<lambda>a. a\<lparr>try_lock := True\<rparr>)) (tid (actions s cur)) = Some th"
    using assms(3) by (simp add: get_thread_upd_action)
  have "process_mutex env s cur =
      (case set_return_value (upd_action s cur (\<lambda>a. a\<lparr>try_lock := True\<rparr>)) (tid (actions s cur)) 1 of
         Inl e \<Rightarrow> Inl e | Inr s2 \<Rightarrow> lock_case s2 cur)"
    using assms(1,2,4) by (simp add: process_mutex_def Let_def)
  also have "\<dots> = lock_case ((upd_action s cur (\<lambda>a. a\<lparr>try_lock := True\<rparr>))
        \<lparr>thread_map := (thread_map (upd_action s cur (\<lambda>a. a\<lparr>try_lock := True\<rparr>)))
            [to_unsigned (id_to_int (tid (actions s cur))) := Some (th\<lparr>return_value := 1\<rparr>)]\<rparr>) cur"
    by (simp add: set_return_value_ok [OF g])
  finally show ?thesis by (simp add: upd_action_def)
qed

lemma lock_case_result:
  assumes "get_mutex (actions s cur) = Some m"
    and "thread_ptr s (tid (actions s cur)) = p"
    and "get_last_unlock s cur = Inr lu"
    and "\<forall>u. lu = Some u \<longrightarrow> seq_number (actions s u) \<le> seq_number (actions s cur)"
  shows "lock_case s cur =
     Inr (lu \<noteq> None,
          (case lu of
             None \<Rightarrow> s\<lparr>locked := (locked s)(m := p)\<rparr>
           | Some u \<Rightarrow> upd_action (s\<lparr>locked := (locked s)(m := p)\<rparr>) cur
                (\<lambda>a. a\<lparr>cv := snd (ClockVector_merge (cv a) (cv (actions s u)))\<rparr>)))"
proof -
  let ?s1 = "s\<lparr>locked := (locked s)(m := p)\<rparr>"
  have lu1: "get_last_unlock ?s1 cur = Inr lu"
    using get_last_unlock_frame [of ?s1 s cur] assms(3) by simp
  show ?thesis
  proof (cases lu)
    case None
    then show ?thesis using assms(1,2) lu1 by (simp add: lock_case_def Let_def)
  next
    case (Some u)
    then have "\<not> seq_number (actions s cur) < seq_number (actions s u)"
      using assms(4) by (simp add: not_less)
    then show ?thesis using assms(1,2) lu1 Some
      by (simp add: lock_case_def Let_def synchronize_def synchronize_with_def)
  qed
qed

lemma trylock_free_result:
  assumes "atype (actions s cur) = ATOMIC_TRYLOCK"
    and "get_mutex (actions s cur) = Some m"
    and "get_thread s (tid (actions s cur)) = Some th"
    and "locked s m = None"
    and "get_last_unlock s cur = Inr lu"
    and "\<forall>u. lu = Some u \<longrightarrow> seq_number (actions s u) \<le> seq_number (actions s cur)"
  shows "\<exists>s'. process_mutex env s cur = Inr (lu \<noteq> None, s')
     \<and> map_option return_value (get_thread s' (tid (actions s cur))) = Some 1
     \<and> locked s' = (locked s)(m := Some (thread_id th))
     \<and> (\<forall>a. a \<noteq> cur \<longrightarrow> cv (actions s' a) = cv (actions s a))
     \<and> cv (actions s' cur) =
         (case lu of None \<Rightarrow> cv (actions s cur)
          | Some u \<Rightarrow> snd (ClockVector_merge (cv (actions s cur)) (cv (actions s u))))"
proof -
  let ?t = "tid (actions s cur)"
  define s2 where "s2 = (upd_action s cur (\<lambda>a. a\<lparr>try_lock := True\<rparr>))
        \<lparr>thread_map := (thread_map s)[to_unsigned (id_to_int ?t) := Some (th\<lparr>return_value := 1\<rparr>)]\<rparr>"
  have pm: "process_mutex env s cur = lock_case s2 cur"
    unfolding s2_def using assms(1-4) by (rule process_mutex_trylock_free)
  have m2: "get_mutex (actions s2 cur) = Some m"
    using assms(2) by (simp add: s2_def upd_action_def get_mutex_def)
  have t2: "tid (actions s2 cur) = ?t" by (simp add: s2_def upd_action_def)
  have gt: "get_thread s2 ?t = Some (th\<lparr>return_value := 1\<rparr>)"
    using assms(3) by (auto simp add: s2_def get_thread_def upd_action_def Let_def split: if_splits)
  have tp: "thread_ptr s2 (tid (actions s2 cur)) = Some (thread_id th)"
    by (simp add: thread_ptr_def gt t2)
  have lu2: "get_last_unlock s2 cur = Inr lu"
  proof -
    have "get_last_unlock s2 cur = get_last_unlock s cur"
      by (rule get_last_unlock_frame) (simp_all add: s2_def upd_action_def)
    then show ?thesis using assms(5) by simp
  qed
  have seqs: "seq_number (actions s2 a) = seq_number (actions s a)" for a
    by (simp add: s2_def upd_action_def)
  have cvs: "cv (actions s2 a) = cv (actions s a)" for a
    by (simp add: s2_def upd_action_def)
  have l2: "locked s2 = locked s"
    by (simp add: s2_def upd_action_def)
  have le: "\<forall>u. lu = Some u \<longrightarrow> seq_number (actions s2 u) \<le> seq_number (actions s2 cur)"
    using assms(6) by (simp add: seqs)
  define s3 where "s3 = (case lu of
             None \<Rightarrow> s2\<lparr>locked := (locked s2)(m := Some (thread_id th))\<rparr>
           | Some u \<Rightarrow> upd_action (s2\<lparr>locked := (locked s2)(m := Some (thread_id th))\<rparr>) cur
                (\<lambda>a. a\<lparr>cv := snd (ClockVector_merge (cv a) (cv (actions s2 u)))\<rparr>))"
  have r: "process_mutex env s cur = Inr (lu \<noteq> None, s3)"
    unfolding pm s3_def by (rule lock_case_result [OF m2 tp lu2 le])
  have "thread_map s3 = thread_map s2"
    by (simp add: s3_def upd_action_def split: option.splits)
  then have "get_thread s3 ?t = get_thread s2 ?t" by (rule get_thread_frame)
  then have g3: "get_thread s3 ?t = Some (th\<lparr>return_value := 1\<rparr>)"
    using gt by simp
  have l3: "locked s3 = (locked s)(m := Some (thread_id th))"
    by (simp add: s3_def upd_action_def l2 split: option.splits)
  have o3: "\<forall>a. a \<noteq> cur \<longrightarrow> cv (actions s3 a) = cv (actions s a)"
    by (simp add: s3_def upd_action_def cvs split: option.splits)
  have v3: "cv (actions s3 cur) =
         (case lu of None \<Rightarrow> cv (actions s cur)
          | Some u \<Rightarrow> snd (ClockVector_merge (cv (actions s cur)) (cv (actions s u))))"
    by (simp add: s3_def upd_action_def cvs split: option.splits)
  show ?thesis using r g3 l3 o3 v3 by (intro exI[of _ s3]) simp
qed

lemma trylock_taken_result:
  assumes "atype (actions s cur) = ATOMIC_TRYLOCK"
    and "get_mutex (actions s cur) = Some m"
    and "get_thread s (tid (actions s cur)) = Some th"
    and "locked s m \<noteq> None"
  shows "\<exists>s'. process_mutex env s cur = Inr (False, s')
     \<and> map_option return_value (get_thread s' (tid (actions s cur))) = Some 0
     \<and> locked s' = locked s
     \<and> (\<forall>a. cv (actions s' a) = cv (actions s a))"
proof -
  let ?t = "tid (actions s cur)"
  define s2 where "s2 = (upd_action s cur (\<lambda>a. a\<lparr>try_lock := False\<rparr>))
        \<lparr>thread_map := (thread_map s)[to_unsigned (id_to_int ?t) := Some (th\<lparr>return_value := 0\<rparr>)]\<rparr>"
  have pm: "process_mutex env s cur = Inr (False, s2)"
    unfolding s2_def using assms by (rule process_mutex_trylock_taken)
  have gt: "get_thread s2 ?t = Some (th\<lparr>return_value := 0\<rparr>)"
    using assms(3) by (auto simp add: s2_def get_thread_def upd_action_def Let_def split: if_splits)
  have "locked s2 = locked s" "\<forall>a. cv (actions s2 a) = cv (actions s a)"
    by (simp_all add: s2_def upd_action_def)
  then show ?thesis
    using pm gt by (intro exI[of _ s2]) simp
qed

text \<open>
  C6. For an \<^verbatim>\<open>ATOMIC_TRYLOCK\<close> action of a thread in the thread map, on a mutex:
  when the mutex is taken, the thread's return value is 0, no clock vector changes and the
  owner of every lock stays as it was; when the mutex is free, the return value is 1, the
  owner becomes the current thread, and the action synchronizes with the last unlock of the
  location when there is one (its clock vector is merged into the acting action's, and
  \<^verbatim>\<open>process_mutex\<close> returns true), while without one no clock vector changes.
  The last unlock is what \<^verbatim>\<open>get_last_unlock\<close> finds; it must not be later than the
  trylock, or the \<^verbatim>\<open>ASSERT\<close> of \<^verbatim>\<open>synchronize\<close> fails.
\<close>

theorem trylock_behaviour:
  assumes "atype (actions s cur) = ATOMIC_TRYLOCK"
    and "get_mutex (actions s cur) = Some m"
    and "get_thread s (tid (actions s cur)) = Some th"
  shows "(locked s m \<noteq> None \<longrightarrow>
           (\<exists>s'. process_mutex env s cur = Inr (False, s')
              \<and> map_option return_value (get_thread s' (tid (actions s cur))) = Some 0
              \<and> locked s' = locked s
              \<and> (\<forall>a. cv (actions s' a) = cv (actions s a))))
       \<and> (locked s m = None \<longrightarrow>
           (\<forall>lu. get_last_unlock s cur = Inr lu
                 \<and> (\<forall>u. lu = Some u \<longrightarrow> seq_number (actions s u) \<le> seq_number (actions s cur))
              \<longrightarrow> (\<exists>s'. process_mutex env s cur = Inr (lu \<noteq> None, s')
                     \<and> map_option return_value (get_thread s' (tid (actions s cur))) = Some 1
                     \<and> locked s' = (locked s)(m := Some (thread_id th))
                     \<and> (\<forall>a. a \<noteq> cur \<longrightarrow> cv (actions s' a) = cv (actions s a))
                     \<and> cv (actions s' cur) =
                         (case lu of
                            None \<Rightarrow> cv (actions s cur)
                          | Some u \<Rightarrow> snd (ClockVector_merge (cv (actions s cur))
                                               (cv (actions s u)))))))"
proof (intro conjI impI allI)
  assume "locked s m \<noteq> None"
  with assms show "\<exists>s'. process_mutex env s cur = Inr (False, s')
              \<and> map_option return_value (get_thread s' (tid (actions s cur))) = Some 0
              \<and> locked s' = locked s
              \<and> (\<forall>a. cv (actions s' a) = cv (actions s a))"
    by (rule trylock_taken_result)
next
  fix lu
  assume f: "locked s m = None"
    and l: "get_last_unlock s cur = Inr lu
       \<and> (\<forall>u. lu = Some u \<longrightarrow> seq_number (actions s u) \<le> seq_number (actions s cur))"
  show "\<exists>s'. process_mutex env s cur = Inr (lu \<noteq> None, s')
         \<and> map_option return_value (get_thread s' (tid (actions s cur))) = Some 1
         \<and> locked s' = (locked s)(m := Some (thread_id th))
         \<and> (\<forall>a. a \<noteq> cur \<longrightarrow> cv (actions s' a) = cv (actions s a))
         \<and> cv (actions s' cur) =
             (case lu of
                None \<Rightarrow> cv (actions s cur)
              | Some u \<Rightarrow> snd (ClockVector_merge (cv (actions s cur)) (cv (actions s u))))"
    using assms f l by (intro trylock_free_result) simp_all
qed

lemma mutex_exec_thread: "get_thread mutex_exec 1 = Some (thread0\<lparr>thread_id := 1, is_model_thread := False, pending := Some 5\<rparr>)"
  by (simp add: get_thread_def mutex_exec_def two_threads_def id_to_int_def to_unsigned_def)

lemma mutex_exec_last_unlock: "get_last_unlock mutex_exec 0 = Inr (Some 2)"
  by (simp add: get_last_unlock_def mutex_exec_def mutex_actions_def act0_def is_unlock_def is_wait_def)

lemma merge_example: "ClockVector_merge [0, 5] [0, 0, 4] = (True, [0, 5, 4])"
  by (simp add: ClockVector_merge_def getClock_def upt_rec)

theorem trylock_behaviour_witness:
  "(\<exists>s'. process_mutex env0 mutex_exec 0 = Inr (True, s')
      \<and> map_option return_value (get_thread s' 1) = Some 1
      \<and> locked s' 3 = Some 1 \<and> cv (actions s' 0) = [0, 5, 4])
   \<and> (\<exists>s'. process_mutex env0 (mutex_exec\<lparr>locked := (\<lambda>m. Some 2)\<rparr>) 0 = Inr (False, s')
      \<and> map_option return_value (get_thread s' 1) = Some 0
      \<and> locked s' 3 = Some 2 \<and> cv (actions s' 0) = [0, 5])"
proof -
  let ?th = "thread0\<lparr>thread_id := 1, is_model_thread := False, pending := Some 5\<rparr>"
  have a: "atype (actions mutex_exec 0) = ATOMIC_TRYLOCK"
    "get_mutex (actions mutex_exec 0) = Some 3"
    "tid (actions mutex_exec 0) = 1"
    "locked mutex_exec 3 = None"
    "seq_number (actions mutex_exec 2) \<le> seq_number (actions mutex_exec 0)"
    "cv (actions mutex_exec 0) = [0, 5]" "cv (actions mutex_exec 2) = [0, 0, 4]"
    by (simp_all add: mutex_exec_def mutex_actions_def act0_def get_mutex_def two_threads_def initial_execution_def)
  have g: "get_thread mutex_exec (tid (actions mutex_exec 0)) = Some ?th"
    by (simp add: a mutex_exec_thread)
  from trylock_behaviour [OF a(1) a(2) g, of env0] a(4)
  have "\<forall>lu. get_last_unlock mutex_exec 0 = Inr lu
                 \<and> (\<forall>u. lu = Some u \<longrightarrow> seq_number (actions mutex_exec u) \<le> seq_number (actions mutex_exec 0))
              \<longrightarrow> (\<exists>s'. process_mutex env0 mutex_exec 0 = Inr (lu \<noteq> None, s')
                     \<and> map_option return_value (get_thread s' (tid (actions mutex_exec 0))) = Some 1
                     \<and> locked s' = (locked mutex_exec)(3 := Some (thread_id ?th))
                     \<and> (\<forall>a. a \<noteq> 0 \<longrightarrow> cv (actions s' a) = cv (actions mutex_exec a))
                     \<and> cv (actions s' 0) =
                         (case lu of
                            None \<Rightarrow> cv (actions mutex_exec 0)
                          | Some u \<Rightarrow> snd (ClockVector_merge (cv (actions mutex_exec 0))
                                               (cv (actions mutex_exec u)))))"
    by blast
  from this [rule_format, of "Some 2"] mutex_exec_last_unlock a(5)
  obtain s' where "process_mutex env0 mutex_exec 0 = Inr (True, s')"
    "map_option return_value (get_thread s' 1) = Some 1"
    "locked s' = (locked mutex_exec)(3 := Some 1)"
    "cv (actions s' 0) = [0, 5, 4]"
    by (auto simp add: a merge_example)
  then have first: "\<exists>s'. process_mutex env0 mutex_exec 0 = Inr (True, s')
      \<and> map_option return_value (get_thread s' 1) = Some 1
      \<and> locked s' 3 = Some 1 \<and> cv (actions s' 0) = [0, 5, 4]"
    by auto
  let ?t = "mutex_exec\<lparr>locked := (\<lambda>m. Some 2)\<rparr>"
  have b: "atype (actions ?t 0) = ATOMIC_TRYLOCK"
    "get_mutex (actions ?t 0) = Some 3"
    "tid (actions ?t 0) = 1" "locked ?t 3 \<noteq> None" "cv (actions ?t 0) = [0, 5]"
    by (simp_all add: a)
  have "get_thread ?t 1 = get_thread mutex_exec 1" by (rule get_thread_frame) simp
  then have g': "get_thread ?t (tid (actions ?t 0)) = Some ?th"
    by (simp add: a mutex_exec_thread)
  from trylock_behaviour [OF b(1) b(2) g', of env0] b(4)
  obtain s'' where "process_mutex env0 ?t 0 = Inr (False, s'')"
    "map_option return_value (get_thread s'' (tid (actions ?t 0))) = Some 0"
    "locked s'' = locked ?t" "\<forall>a. cv (actions s'' a) = cv (actions ?t a)"
    by blast
  then have second: "\<exists>s'. process_mutex env0 ?t 0 = Inr (False, s')
      \<and> map_option return_value (get_thread s' 1) = Some 0
      \<and> locked s' 3 = Some 2 \<and> cv (actions s' 0) = [0, 5]"
    using b(3) b(5) by (intro exI[of _ s'']) simp
  show ?thesis using first second by blast
qed

lemma process_mutex_notify_one:
  assumes "atype (actions s cur) = ATOMIC_NOTIFY_ONE"
  shows "process_mutex env s cur =
     (case condvar_waiters_map s (location (actions s cur)) of
        None \<Rightarrow>
          Inr (False, s\<lparr>condvar_waiters_map :=
                          (condvar_waiters_map s)(location (actions s cur) \<mapsto> [])\<rparr>)
      | Some waiters \<Rightarrow>
          if waiters \<noteq> []
          then Inr (False, s\<lparr>calls := calls s @ [Wake (selectNotify env waiters)]\<rparr>)
          else Inr (False, s))"
  using assms
  by (simp add: process_mutex_def Let_def get_safe_ptr_action_def split: option.splits)

text \<open>
  C8, as the claim states it, fails where it says that a notify-one with an empty waiter
  list changes no state: \<^verbatim>\<open>get_safe_ptr_action\<close> makes the list of a location that
  has none. Below, nobody has waited on the condition variable at location 9; after the
  notify-one the table \<^verbatim>\<open>condvar_waiters_map\<close> holds an empty list for it, and the
  execution is no longer the one before.
\<close>

theorem notify_one_registers_empty_list:
  "condvar_waiters_map notify_exec 9 = None
   \<and> process_mutex env0 notify_exec 0
       = Inr (False, notify_exec\<lparr>condvar_waiters_map := (\<lambda>l. None)(9 \<mapsto> [])\<rparr>)
   \<and> notify_exec\<lparr>condvar_waiters_map := (\<lambda>l. None)(9 \<mapsto> [])\<rparr> \<noteq> notify_exec"
proof -
  have a: "atype (actions notify_exec 0) = ATOMIC_NOTIFY_ONE"
    "location (actions notify_exec 0) = 9"
    "condvar_waiters_map notify_exec = (\<lambda>l. None)"
    by (simp_all add: notify_exec_def two_threads_def initial_execution_def act0_def)
  have "condvar_waiters_map (notify_exec\<lparr>condvar_waiters_map := (\<lambda>l. None)(9 \<mapsto> [])\<rparr>) 9
        \<noteq> condvar_waiters_map notify_exec 9"
    by (simp add: a)
  then have "notify_exec\<lparr>condvar_waiters_map := (\<lambda>l. None)(9 \<mapsto> [])\<rparr> \<noteq> notify_exec"
    by metis
  then show ?thesis
    by (simp add: process_mutex_notify_one [OF a(1)] a)
qed

text \<open>
  C8, amended. For an \<^verbatim>\<open>ATOMIC_NOTIFY_ONE\<close> action: when the waiter list of its
  location is not empty, the one thread that the fuzzer chooses is woken and nothing else
  changes, the waiter list included (the core does not remove the woken waiter); when the
  list is there and empty, nothing changes; and when the location has no waiter list yet,
  the only change is that an empty list is registered for it.
\<close>

theorem notify_one_effect:
  assumes "atype (actions s cur) = ATOMIC_NOTIFY_ONE"
  shows "(\<forall>waiters. condvar_waiters_map s (location (actions s cur)) = Some waiters
                     \<and> waiters \<noteq> []
            \<longrightarrow> process_mutex env s cur
                = Inr (False, s\<lparr>calls := calls s @ [Wake (selectNotify env waiters)]\<rparr>))
       \<and> (condvar_waiters_map s (location (actions s cur)) = Some []
            \<longrightarrow> process_mutex env s cur = Inr (False, s))
       \<and> (condvar_waiters_map s (location (actions s cur)) = None
            \<longrightarrow> process_mutex env s cur
                = Inr (False, s\<lparr>condvar_waiters_map :=
                                  (condvar_waiters_map s)(location (actions s cur) \<mapsto> [])\<rparr>))"
  by (simp add: process_mutex_notify_one [OF assms])

theorem notify_one_effect_witness:
  "process_mutex env0 (notify_exec\<lparr>condvar_waiters_map := (\<lambda>l. None)(9 \<mapsto> [4, 5])\<rparr>) 0
     = Inr (False, notify_exec\<lparr>condvar_waiters_map := (\<lambda>l. None)(9 \<mapsto> [4, 5]),
                                calls := [Wake 1]\<rparr>)
   \<and> process_mutex env0 (notify_exec\<lparr>condvar_waiters_map := (\<lambda>l. None)(9 \<mapsto> [])\<rparr>) 0
     = Inr (False, notify_exec\<lparr>condvar_waiters_map := (\<lambda>l. None)(9 \<mapsto> [])\<rparr>)"
proof -
  let ?s = "notify_exec\<lparr>condvar_waiters_map := (\<lambda>l. None)(9 \<mapsto> [4, 5])\<rparr>"
  let ?e = "notify_exec\<lparr>condvar_waiters_map := (\<lambda>l. None)(9 \<mapsto> [])\<rparr>"
  have a: "atype (actions ?s 0) = ATOMIC_NOTIFY_ONE" "location (actions notify_exec 0) = 9"
    "atype (actions ?e 0) = ATOMIC_NOTIFY_ONE" "calls notify_exec = []"
    by (simp_all add: notify_exec_def two_threads_def initial_execution_def act0_def)
  have n: "selectNotify env0 [4, 5] = 1" by (simp add: env0_def)
  show ?thesis
    using notify_one_effect [OF a(1), of env0] notify_one_effect [OF a(3), of env0]
    by (simp add: a n)
qed

subsection \<open>build_may_read_from\<close>

lemma second_rmw_total:
  assumes "is_rmwrcas (actions s cur) \<longrightarrow> asize (actions s cur) \<in> {1, 2, 4, 8}"
  shows "\<exists>b. second_rmw s cur act = Inr b"
proof (cases "is_rmwrcas (actions s cur)")
  case True
  then have "asize (actions s cur) \<in> {1, 2, 4, 8}" using assms by simp
  then have "\<exists>b. valequals (val (actions s cur)) (val (actions s act)) (asize (actions s cur)) = Inr b"
    by (auto simp add: valequals_def)
  then show ?thesis by (auto simp add: second_rmw_def Let_def)
next
  case False
  then show ?thesis by (auto simp add: second_rmw_def Let_def)
qed

lemma second_rmw_not_rmwr:
  "\<not> is_rmwr (actions s cur) \<Longrightarrow> second_rmw s cur act = Inr False"
  by (simp add: second_rmw_def)

lemma allow_read_eq:
  "(\<not> (is_seqcst (actions s cur)
        \<and> (is_seqcst (actions s act)
            \<or> (case (if is_seqcst (actions s cur) then get_last_seq_cst_write s cur else None) of
                  None \<Rightarrow> False
                | Some l \<Rightarrow> happens_before (actions s act) (actions s l)))
        \<and> Some act \<noteq> (if is_seqcst (actions s cur) then get_last_seq_cst_write s cur else None)))
   = sc_admits s cur act"
  by (auto simp add: sc_admits_def split: option.splits)

lemma may_read_from_walk_eq:
  assumes "\<And>act. \<exists>b. second_rmw s cur act = Inr b"
    and "last_sc_write = (if is_seqcst (actions s cur) then get_last_seq_cst_write s cur else None)"
  shows "may_read_from_walk s cur last_sc_write xs rf_set =
         Inr (rf_set @ filter (\<lambda>w. sc_admits s cur w \<and> second_rmw s cur w = Inr False)
                         (walked s cur xs))"
proof (induction xs arbitrary: rf_set)
  case Nil
  then show ?case by simp
next
  case (Cons act rest)
  show ?case
  proof (cases "act = cur")
    case True
    then show ?thesis using Cons.IH by simp
  next
    case False
    obtain b where b: "second_rmw s cur act = Inr b" using assms(1) by blast
    have al: "(\<not> (is_seqcst (actions s cur)
        \<and> (is_seqcst (actions s act)
            \<or> (case last_sc_write of
                  None \<Rightarrow> False
                | Some l \<Rightarrow> happens_before (actions s act) (actions s l)))
        \<and> Some act \<noteq> last_sc_write)) = sc_admits s cur act"
      unfolding assms(2) by (rule allow_read_eq)
    show ?thesis
    proof (cases "happens_before (actions s act) (actions s cur)")
      case True
      then show ?thesis using False b al by (simp add: Let_def)
    next
      case hb: False
      then show ?thesis using False b al Cons.IH by (simp add: Let_def)
    qed
  qed
qed

lemma may_read_from_threads_eq:
  assumes "\<And>act. \<exists>b. second_rmw s cur act = Inr b"
    and "last_sc_write = (if is_seqcst (actions s cur) then get_last_seq_cst_write s cur else None)"
  shows "may_read_from_threads s cur last_sc_write thrd_lists rf_set =
         Inr (rf_set @ concat (map (\<lambda>list. filter (\<lambda>w. sc_admits s cur w \<and> second_rmw s cur w = Inr False)
                         (walked s cur (rev list))) thrd_lists))"
proof (induction thrd_lists arbitrary: rf_set)
  case Nil
  then show ?case by simp
next
  case (Cons list others)
  show ?case
    by (simp add: may_read_from_walk_eq [OF assms] Cons.IH)
qed

lemma build_may_read_from_eq:
  assumes "is_read (actions s cur)"
    and "obj_wr_thrd_map s (location (actions s cur)) = Some thrd_lists"
    and "is_rmwrcas (actions s cur) \<longrightarrow> asize (actions s cur) \<in> {1, 2, 4, 8}"
  shows "build_may_read_from s cur =
           Inr (concat (map (\<lambda>list. filter (\<lambda>w. sc_admits s cur w \<and> second_rmw s cur w = Inr False)
                                      (walked s cur (rev list))) thrd_lists))"
proof -
  have t: "\<And>act. \<exists>b. second_rmw s cur act = Inr b"
    using assms(3) by (rule second_rmw_total)
  show ?thesis
    using assms(1,2) by (simp add: build_may_read_from_def Let_def may_read_from_threads_eq [OF t])
qed

text \<open>
  C2, amended. For a read \<open>cur\<close> and the writes that \<^verbatim>\<open>build_may_read_from\<close> visits in
  \<^verbatim>\<open>obj_wr_thrd_map\<close>, a write \<open>w\<close> passes the seq-cst rule exactly when \<open>cur\<close> is
  not seq-cst, or \<open>w\<close> is the last seq-cst write of the location, or \<open>w\<close> is not seq-cst
  and does not happen before a last seq-cst write (\<open>sc_admits\<close>). The vector returned
  holds, thread by thread and newest first, the visited writes that pass this rule and the
  RMW test; for a read that is not the read half of an RMW, the seq-cst rule alone decides.
\<close>

theorem build_may_read_from_sc_rule:
  assumes "is_read (actions s cur)"
    and "obj_wr_thrd_map s (location (actions s cur)) = Some thrd_lists"
    and "is_rmwrcas (actions s cur) \<longrightarrow> asize (actions s cur) \<in> {1, 2, 4, 8}"
  shows "build_may_read_from s cur =
           Inr (concat (map (\<lambda>list. filter (\<lambda>w. sc_admits s cur w \<and> second_rmw s cur w = Inr False)
                                      (walked s cur (rev list))) thrd_lists))
       \<and> (\<not> is_rmwr (actions s cur) \<longrightarrow>
            build_may_read_from s cur =
              Inr (concat (map (\<lambda>list. filter (sc_admits s cur) (walked s cur (rev list)))
                     thrd_lists)))"
  by (simp add: build_may_read_from_eq [OF assms] second_rmw_not_rmwr)

lemma sc_exec_facts:
  "is_read (actions sc_exec 0)" "\<not> is_rmwr (actions sc_exec 0)" "\<not> is_rmwrcas (actions sc_exec 0)"
  "obj_wr_thrd_map sc_exec (location (actions sc_exec 0)) = Some [[5], [], [2, 3, 4]]"
  "get_last_seq_cst_write sc_exec 0 = Some 4"
  "is_seqcst (actions sc_exec 0)"
  by (simp_all add: sc_exec_def sc_actions_def act0_def is_read_def is_rmwr_def is_rmwrcas_def
      get_last_seq_cst_write_def is_seqcst_def)

lemma sc_exec_walked:
  "walked sc_exec 0 [5] = [5]" "walked sc_exec 0 [4, 3, 2] = [4, 3, 2]"
  by (simp_all add: sc_exec_def sc_actions_def act0_def happens_before_def)

lemma sc_exec_admits:
  "\<not> sc_admits sc_exec 0 2" "\<not> sc_admits sc_exec 0 3" "sc_admits sc_exec 0 4" "sc_admits sc_exec 0 5"
  by (simp_all add: sc_admits_def sc_exec_facts)
    (simp_all add: sc_exec_def sc_actions_def act0_def happens_before_def is_seqcst_def)

theorem build_may_read_from_sc_rule_witness:
  "build_may_read_from sc_exec 0 = Inr [5, 4]"
  using build_may_read_from_sc_rule [of sc_exec 0 "[[5], [], [2, 3, 4]]"]
  by (simp add: sc_exec_facts sc_exec_walked sc_exec_admits second_rmw_not_rmwr)

text \<open>
  C2, as the claim states it, fails: the conditions it gives for admitting a write are
  those under which the code rejects it. For the seq-cst read 0 of \<open>sc_exec\<close> every write
  is visited; the spec's rule admits the seq-cst write 2 and the write 3, which happens
  before the last seq-cst write 4, and rejects the relaxed write 5, while the vector built
  holds 5 and 4 and neither 2 nor 3.
\<close>

theorem seq_cst_read_rejects_seq_cst_write:
  "build_may_read_from sc_exec 0 = Inr [5, 4]
   \<and> walked sc_exec 0 [4, 3, 2] = [4, 3, 2] \<and> walked sc_exec 0 [5] = [5]
   \<and> spec_sc_admits sc_exec 0 2 \<and> spec_sc_admits sc_exec 0 3 \<and> \<not> spec_sc_admits sc_exec 0 5"
proof -
  have "build_may_read_from sc_exec 0 = Inr [5, 4]"
    using build_may_read_from_eq [of sc_exec 0 "[[5], [], [2, 3, 4]]"]
    by (simp add: sc_exec_facts sc_exec_walked sc_exec_admits second_rmw_not_rmwr)
  moreover have "spec_sc_admits sc_exec 0 2 \<and> spec_sc_admits sc_exec 0 3 \<and> \<not> spec_sc_admits sc_exec 0 5"
    by (simp add: spec_sc_admits_def sc_exec_facts)
      (simp add: sc_exec_def sc_actions_def act0_def happens_before_def is_seqcst_def)
  ultimately show ?thesis using sc_exec_walked by blast
qed

subsection \<open>Modification order of seq-cst writes\<close>

lemma edges_addEdges:
  "set (edges (addEdges g es b)) = set (edges g) \<union> (\<lambda>a. (a, b)) ` set es"
  unfolding addEdges_def
  by (induction es arbitrary: g) (auto simp add: addEdge_def)

lemma w_mo_walk_grows: "set edgeset \<subseteq> set (w_mo_walk s cur fb xs edgeset)"
  by (induction xs arbitrary: edgeset) (auto simp add: Let_def)

lemma w_mo_threads_grows:
  "w_mo_threads env s cur lf i ls edgeset = Inr es \<Longrightarrow> set edgeset \<subseteq> set es"
proof (induction ls arbitrary: i edgeset)
  case Nil
  then show ?case by simp
next
  case (Cons list others)
  from Cons.prems obtain fb where
    r: "w_mo_threads env s cur lf (Suc i) others (w_mo_walk s cur fb (rev list) edgeset) = Inr es"
    by (auto split: sum.splits if_splits)
  have "set edgeset \<subseteq> set (w_mo_walk s cur fb (rev list) edgeset)" by (rule w_mo_walk_grows)
  also have "\<dots> \<subseteq> set es" using r by (rule Cons.IH)
  finally show ?case .
qed

lemma fence_search_none: "\<exists>r. get_last_seq_cst_fence env s t None = Inr r"
  by (simp add: get_last_seq_cst_fence_def Let_def split: option.splits)

lemma fence_search_before:
  assumes "get_last_seq_cst_fence env s t None = Inr (Some f)"
  shows "\<exists>r. get_last_seq_cst_fence env s t' (Some f) = Inr r"
proof (cases "obj_map s (FENCE_LOCATION env)")
  case None
  then show ?thesis by (simp add: get_last_seq_cst_fence_def)
next
  case (Some list)
  with assms have "find (\<lambda>act. is_fence (actions s act) \<and> t = tid (actions s act)
                                 \<and> is_seqcst (actions s act)) (rev list) = Some f"
    by (simp add: get_last_seq_cst_fence_def Let_def)
  then have "f \<in> set (rev list)" by (metis find_Some_iff nth_mem)
  then have "dropWhile (\<lambda>act. act \<noteq> f) (rev list) \<noteq> []"
    by (simp add: dropWhile_eq_Nil_conv)
  then show ?thesis using Some
    by (auto simp add: get_last_seq_cst_fence_def Let_def split: list.splits)
qed

lemma w_mo_threads_total:
  assumes "\<And>t'. lf \<noteq> None \<Longrightarrow> \<exists>r. get_last_seq_cst_fence env s t' lf = Inr r"
  shows "\<exists>es. w_mo_threads env s cur lf i ls edgeset = Inr es"
proof (induction ls arbitrary: i edgeset)
  case Nil
  then show ?case by simp
next
  case (Cons list others)
  show ?case
  proof (cases "lf \<noteq> None \<and> int_to_id (int i) \<noteq> tid (actions s cur)")
    case True
    then obtain r where "get_last_seq_cst_fence env s (int_to_id (int i)) lf = Inr r"
      using assms by blast
    then show ?thesis using True Cons.IH by simp
  next
    case False
    then show ?thesis using Cons.IH by auto
  qed
qed

lemma w_modification_order_alt:
  "w_modification_order env s cur =
     (if \<not> is_write (actions s cur) then Inl AssertionFailure
      else case get_last_seq_cst_fence env (sc_pre s cur) (tid (actions s cur)) None of
             Inl e \<Rightarrow> Inl e
           | Inr lf \<Rightarrow>
               (case obj_thrd_map (sc_pre s cur) (location (actions s cur)) of
                  None \<Rightarrow> Inl NullDereference
                | Some ls \<Rightarrow>
                    (case w_mo_threads env (sc_pre s cur) cur lf 0 ls
                            (if is_seqcst (actions s cur)
                             then (case get_last_seq_cst_write s cur of
                                     None \<Rightarrow> [] | Some l \<Rightarrow> [Some l])
                             else []) of
                       Inl e \<Rightarrow> Inl e
                     | Inr es \<Rightarrow>
                         Inr ((sc_pre s cur)\<lparr>mo_graph :=
                                addEdges (mo_graph (sc_pre s cur)) es (Some cur)\<rparr>))))"
  by (simp add: w_modification_order_def Let_def sc_pre_def
      cong: sum.case_cong option.case_cong)

lemma w_modification_order_unfold:
  assumes "w_modification_order env s cur = Inr s'"
  shows "\<exists>lf ls es. is_write (actions s cur)
     \<and> w_mo_threads env (sc_pre s cur) cur lf 0 ls
          (if is_seqcst (actions s cur)
           then (case get_last_seq_cst_write s cur of None \<Rightarrow> [] | Some l \<Rightarrow> [Some l])
           else []) = Inr es
     \<and> s' = (sc_pre s cur)\<lparr>mo_graph := addEdges (mo_graph (sc_pre s cur)) es (Some cur)\<rparr>"
proof -
  have iw: "is_write (actions s cur)"
    using assms by (simp add: w_modification_order_alt split: if_splits)
  obtain lf where lf: "get_last_seq_cst_fence env (sc_pre s cur) (tid (actions s cur)) None = Inr lf"
    using fence_search_none by blast
  obtain ls where ls: "obj_thrd_map (sc_pre s cur) (location (actions s cur)) = Some ls"
    using assms iw lf by (cases "obj_thrd_map (sc_pre s cur) (location (actions s cur))")
      (simp_all add: w_modification_order_alt)
  let ?e0 = "if is_seqcst (actions s cur)
           then (case get_last_seq_cst_write s cur of None \<Rightarrow> [] | Some l \<Rightarrow> [Some l])
           else []"
  obtain es where es: "w_mo_threads env (sc_pre s cur) cur lf 0 ls ?e0 = Inr es"
    using assms iw lf ls by (cases "w_mo_threads env (sc_pre s cur) cur lf 0 ls ?e0")
      (simp_all add: w_modification_order_alt)
  have "s' = (sc_pre s cur)\<lparr>mo_graph := addEdges (mo_graph (sc_pre s cur)) es (Some cur)\<rparr>"
    using assms iw lf ls es by (simp add: w_modification_order_alt)
  then show ?thesis using iw es by blast
qed

lemma w_modification_order_step:
  assumes "w_modification_order env s cur = Inr s'"
  shows "actions s' = actions s" and "obj_thrd_map s' = obj_thrd_map s" and "obj_map s' = obj_map s"
    and "set (edges (mo_graph s)) \<subseteq> set (edges (mo_graph s'))"
    and "\<not> is_seqcst (actions s cur) \<Longrightarrow> obj_last_sc_map s' = obj_last_sc_map s"
    and "is_seqcst (actions s cur) \<Longrightarrow>
         obj_last_sc_map s' = (obj_last_sc_map s)(location (actions s cur) \<mapsto> cur)"
    and "is_seqcst (actions s cur) \<Longrightarrow> obj_last_sc_map s (location (actions s cur)) = Some w' \<Longrightarrow>
         (Some w', Some cur) \<in> set (edges (mo_graph s'))"
proof -
  from w_modification_order_unfold [OF assms] obtain lf ls es where
    w: "w_mo_threads env (sc_pre s cur) cur lf 0 ls
          (if is_seqcst (actions s cur)
           then (case get_last_seq_cst_write s cur of None \<Rightarrow> [] | Some l \<Rightarrow> [Some l])
           else []) = Inr es"
    and s': "s' = (sc_pre s cur)\<lparr>mo_graph := addEdges (mo_graph (sc_pre s cur)) es (Some cur)\<rparr>"
    by blast
  show "actions s' = actions s" "obj_thrd_map s' = obj_thrd_map s" "obj_map s' = obj_map s"
    by (simp_all add: s' sc_pre_def)
  show "set (edges (mo_graph s)) \<subseteq> set (edges (mo_graph s'))"
    by (auto simp add: s' sc_pre_def edges_addEdges)
  show "\<not> is_seqcst (actions s cur) \<Longrightarrow> obj_last_sc_map s' = obj_last_sc_map s"
    by (simp add: s' sc_pre_def)
  show "is_seqcst (actions s cur) \<Longrightarrow>
         obj_last_sc_map s' = (obj_last_sc_map s)(location (actions s cur) \<mapsto> cur)"
    by (simp add: s' sc_pre_def)
  show "(Some w', Some cur) \<in> set (edges (mo_graph s'))"
    if "is_seqcst (actions s cur)" "obj_last_sc_map s (location (actions s cur)) = Some w'"
  proof -
    have "set [Some w'] \<subseteq> set es"
      using w_mo_threads_grows [OF w] that by (simp add: get_last_seq_cst_write_def)
    then show ?thesis by (auto simp add: s' edges_addEdges)
  qed
qed

lemma w_modification_order_total:
  assumes "is_write (actions s cur)" and "obj_thrd_map s (location (actions s cur)) \<noteq> None"
  shows "\<exists>s'. w_modification_order env s cur = Inr s'"
proof -
  let ?s1 = "sc_pre s cur"
  obtain ls where ls: "obj_thrd_map ?s1 (location (actions s cur)) = Some ls"
    using assms(2) by (auto simp add: sc_pre_def)
  obtain lf where lf: "get_last_seq_cst_fence env ?s1 (tid (actions s cur)) None = Inr lf"
    using fence_search_none by blast
  have "\<And>t'. lf \<noteq> None \<Longrightarrow> \<exists>r. get_last_seq_cst_fence env ?s1 t' lf = Inr r"
    using lf fence_search_before by (metis not_Some_eq)
  then obtain es where "w_mo_threads env ?s1 cur lf 0 ls
          (if is_seqcst (actions s cur)
           then (case get_last_seq_cst_write s cur of None \<Rightarrow> [] | Some l \<Rightarrow> [Some l])
           else []) = Inr es"
    using w_mo_threads_total by blast
  then show ?thesis using assms(1) ls lf
    by (simp add: w_modification_order_alt)
qed

lemma sc_run_invariant:
  "sc_run env s0 h s \<Longrightarrow>
    (\<forall>w l. (w, True, l) \<in> set h \<longrightarrow>
        (\<exists>last. obj_last_sc_map s l = Some last
           \<and> (w = last \<or> (Some w, Some last) \<in> (set (edges (mo_graph s)))\<^sup>+)))
  \<and> (\<forall>i j. i < j \<and> j < length h \<and> fst (snd (h ! i)) \<and> fst (snd (h ! j))
            \<and> snd (snd (h ! i)) = snd (snd (h ! j))
        \<longrightarrow> (Some (fst (h ! i)), Some (fst (h ! j))) \<in> (set (edges (mo_graph s)))\<^sup>+)"
proof (induction rule: sc_run.induct)
  case (sc_start env s0)
  then show ?case by simp
next
  case (sc_other env s0 h s s')
  have m: "(a, b) \<in> (set (edges (mo_graph s)))\<^sup>+ \<Longrightarrow> (a, b) \<in> (set (edges (mo_graph s')))\<^sup>+" for a b
    using trancl_mono [OF _ sc_other.hyps(3)] by blast
  show ?case
  proof (intro conjI allI impI)
    fix w l assume "(w, True, l) \<in> set h"
    then obtain last where "obj_last_sc_map s l = Some last"
      "w = last \<or> (Some w, Some last) \<in> (set (edges (mo_graph s)))\<^sup>+"
      using sc_other.IH by blast
    then show "\<exists>last. obj_last_sc_map s' l = Some last
           \<and> (w = last \<or> (Some w, Some last) \<in> (set (edges (mo_graph s')))\<^sup>+)"
      using m sc_other.hyps(2) by auto
  next
    fix i j
    assume "i < j \<and> j < length h \<and> fst (snd (h ! i)) \<and> fst (snd (h ! j))
            \<and> snd (snd (h ! i)) = snd (snd (h ! j))"
    then have "(Some (fst (h ! i)), Some (fst (h ! j))) \<in> (set (edges (mo_graph s)))\<^sup>+"
      using sc_other.IH by blast
    then show "(Some (fst (h ! i)), Some (fst (h ! j))) \<in> (set (edges (mo_graph s')))\<^sup>+"
      by (rule m)
  qed
next
  case (sc_write env s0 h s w s')
  let ?sc = "is_seqcst (actions s w)" and ?l = "location (actions s w)"
  let ?E = "set (edges (mo_graph s))" and ?E' = "set (edges (mo_graph s'))"
  note st = w_modification_order_step [OF sc_write.hyps(2)]
  have m: "(a, b) \<in> ?E\<^sup>+ \<Longrightarrow> (a, b) \<in> ?E'\<^sup>+" for a b
    using trancl_mono [OF _ st(4)] by blast
  have old: "\<exists>last. obj_last_sc_map s' l = Some last
           \<and> (w1 = last \<or> (Some w1, Some last) \<in> ?E'\<^sup>+)"
    and new: "?sc \<Longrightarrow> l = ?l \<Longrightarrow> (Some w1, Some w) \<in> ?E'\<^sup>+"
    if h: "(w1, True, l) \<in> set h" for w1 l
  proof -
    obtain last0 where l0: "obj_last_sc_map s l = Some last0"
      and p0: "w1 = last0 \<or> (Some w1, Some last0) \<in> ?E\<^sup>+"
      using sc_write.IH h by blast
    have reach: "(Some w1, Some w) \<in> ?E'\<^sup>+" if "?sc" "l = ?l"
    proof -
      have e: "(Some last0, Some w) \<in> ?E'" using st(7) that l0 by simp
      from p0 show ?thesis
      proof
        assume "w1 = last0" then show ?thesis using e by auto
      next
        assume "(Some w1, Some last0) \<in> ?E\<^sup>+"
        then have "(Some w1, Some last0) \<in> ?E'\<^sup>+" by (rule m)
        then show ?thesis using e by (rule trancl_into_trancl)
      qed
    qed
    show "?sc \<Longrightarrow> l = ?l \<Longrightarrow> (Some w1, Some w) \<in> ?E'\<^sup>+" using reach .
    show "\<exists>last. obj_last_sc_map s' l = Some last
           \<and> (w1 = last \<or> (Some w1, Some last) \<in> ?E'\<^sup>+)"
    proof (cases "?sc \<and> l = ?l")
      case True
      then have "obj_last_sc_map s' l = Some w" using st(6) by simp
      then show ?thesis using reach True by simp
    next
      case False
      then have "obj_last_sc_map s' l = obj_last_sc_map s l"
        using st(5) st(6) by (cases ?sc) auto
      then show ?thesis using l0 p0 m by auto
    qed
  qed
  show ?case
  proof (intro conjI allI impI)
    fix w1 l assume "(w1, True, l) \<in> set (h @ [(w, ?sc, ?l)])"
    then consider "(w1, True, l) \<in> set h" | "w1 = w" "?sc" "l = ?l" by auto
    then show "\<exists>last. obj_last_sc_map s' l = Some last
           \<and> (w1 = last \<or> (Some w1, Some last) \<in> ?E'\<^sup>+)"
    proof cases
      case 1
      then show ?thesis by (rule old)
    next
      case 2
      then show ?thesis using st(6) by simp
    qed
  next
    fix i j
    let ?h = "h @ [(w, ?sc, ?l)]"
    assume a: "i < j \<and> j < length ?h \<and> fst (snd (?h ! i)) \<and> fst (snd (?h ! j))
            \<and> snd (snd (?h ! i)) = snd (snd (?h ! j))"
    then have i: "i < length h" by simp
    then have hi: "?h ! i = h ! i" by (simp add: nth_append)
    show "(Some (fst (?h ! i)), Some (fst (?h ! j))) \<in> ?E'\<^sup>+"
    proof (cases "j < length h")
      case True
      then have hj: "?h ! j = h ! j" by (simp add: nth_append)
      have "(Some (fst (h ! i)), Some (fst (h ! j))) \<in> ?E\<^sup>+"
        using sc_write.IH a True hi hj by auto
      then show ?thesis using hi hj m by simp
    next
      case False
      then have j: "j = length h" using a by simp
      then have hj: "?h ! j = (w, ?sc, ?l)" by simp
      have sc: "?sc" and l: "snd (snd (h ! i)) = ?l" and sci: "fst (snd (h ! i))"
        using a hi hj by auto
      have "(fst (h ! i), True, snd (snd (h ! i))) \<in> set h"
        using i sci by (metis nth_mem prod.collapse)
      then have "(Some (fst (h ! i)), Some w) \<in> ?E'\<^sup>+"
        using sc l by (intro new) auto
      then show ?thesis using hi hj by simp
    qed
  qed
qed

text \<open>
  C4. A seq-cst write \<open>w\<close> given to \<^verbatim>\<open>w_modification_order\<close> (a write whose location
  has its per-thread lists) is processed without failure; afterwards \<^verbatim>\<open>obj_last_sc_map\<close>
  holds \<open>w\<close> for the location, and if it held a write \<open>w'\<close> before, the graph has the
  edge from \<open>w'\<close> to \<open>w\<close>. Hence in every execution (\<open>sc_run\<close>), of two writes
  processed as seq-cst writes of one location, the graph has a path from the earlier to the
  later. The graph is the spec's: \<^verbatim>\<open>addEdges\<close> adds an edge from every member of the
  edge set.
\<close>

theorem seq_cst_writes_ordered:
  "(\<forall>s w. is_write (actions s w) \<and> is_seqcst (actions s w)
           \<and> obj_thrd_map s (location (actions s w)) \<noteq> None
      \<longrightarrow> (\<exists>s'. w_modification_order env s w = Inr s'
             \<and> obj_last_sc_map s' = (obj_last_sc_map s)(location (actions s w) \<mapsto> w)
             \<and> (\<forall>w'. obj_last_sc_map s (location (actions s w)) = Some w'
                    \<longrightarrow> (Some w', Some w) \<in> set (edges (mo_graph s')))))
   \<and> (\<forall>s0 h s i j. sc_run env s0 h s \<and> i < j \<and> j < length h
           \<and> fst (snd (h ! i)) \<and> fst (snd (h ! j)) \<and> snd (snd (h ! i)) = snd (snd (h ! j))
      \<longrightarrow> (Some (fst (h ! i)), Some (fst (h ! j))) \<in> (set (edges (mo_graph s)))\<^sup>+)"
proof (intro conjI allI impI)
  fix s :: model_execution and w
  assume a: "is_write (actions s w) \<and> is_seqcst (actions s w)
           \<and> obj_thrd_map s (location (actions s w)) \<noteq> None"
  then obtain s' where s': "w_modification_order env s w = Inr s'"
    using w_modification_order_total by blast
  note st = w_modification_order_step [OF s']
  show "\<exists>s'. w_modification_order env s w = Inr s'
             \<and> obj_last_sc_map s' = (obj_last_sc_map s)(location (actions s w) \<mapsto> w)
             \<and> (\<forall>w'. obj_last_sc_map s (location (actions s w)) = Some w'
                    \<longrightarrow> (Some w', Some w) \<in> set (edges (mo_graph s')))"
    using s' st(6) st(7) a by blast
next
  fix s0 h s i j
  assume "sc_run env s0 h s \<and> i < j \<and> j < length h
           \<and> fst (snd (h ! i)) \<and> fst (snd (h ! j)) \<and> snd (snd (h ! i)) = snd (snd (h ! j))"
  then show "(Some (fst (h ! i)), Some (fst (h ! j))) \<in> (set (edges (mo_graph s)))\<^sup>+"
    using sc_run_invariant by blast
qed

theorem seq_cst_writes_ordered_witness:
  "\<exists>s1 s2. w_modification_order env0 (sc_exec\<lparr>obj_last_sc_map := (\<lambda>l. None)\<rparr>) 2 = Inr s1
      \<and> w_modification_order env0 s1 4 = Inr s2
      \<and> obj_last_sc_map s2 6 = Some 4
      \<and> (Some 2, Some 4) \<in> set (edges (mo_graph s2))
      \<and> (Some 2, Some 4) \<in> (set (edges (mo_graph s2)))\<^sup>+"
proof -
  let ?s0 = "sc_exec\<lparr>obj_last_sc_map := (\<lambda>l. None)\<rparr>"
  have a: "actions ?s0 = sc_actions" "obj_thrd_map ?s0 6 \<noteq> None"
    by (simp_all add: sc_exec_def)
  have f: "is_write (sc_actions 2)" "is_seqcst (sc_actions 2)" "location (sc_actions 2) = 6"
    "is_write (sc_actions 4)" "is_seqcst (sc_actions 4)" "location (sc_actions 4) = 6"
    by (simp_all add: sc_actions_def act0_def is_write_def is_seqcst_def)
  note t = seq_cst_writes_ordered [of env0]
  from t have "\<exists>s'. w_modification_order env0 ?s0 2 = Inr s'
             \<and> obj_last_sc_map s' = (obj_last_sc_map ?s0)(location (actions ?s0 2) \<mapsto> 2)"
    using a f by (metis (no_types, lifting))
  then obtain s1 where s1: "w_modification_order env0 ?s0 2 = Inr s1"
    and m1: "obj_last_sc_map s1 6 = Some 2"
    using a f by auto
  have a1: "actions s1 = sc_actions" "obj_thrd_map s1 6 \<noteq> None"
    using w_modification_order_step(1,2) [OF s1] a by simp_all
  from t have "\<exists>s'. w_modification_order env0 s1 4 = Inr s'
             \<and> obj_last_sc_map s' = (obj_last_sc_map s1)(location (actions s1 4) \<mapsto> 4)
             \<and> (\<forall>w'. obj_last_sc_map s1 (location (actions s1 4)) = Some w'
                    \<longrightarrow> (Some w', Some 4) \<in> set (edges (mo_graph s')))"
    using a1 f by (metis (no_types, lifting))
  then obtain s2 where s2: "w_modification_order env0 s1 4 = Inr s2"
    and m2: "obj_last_sc_map s2 6 = Some 4"
    and e2: "(Some 2, Some 4) \<in> set (edges (mo_graph s2))"
    using a1 f m1 by auto
  have "sc_run env0 ?s0 ([] @ [(2, is_seqcst (actions ?s0 2), location (actions ?s0 2))]) s1"
    by (rule sc_write [OF sc_start s1])
  from sc_write [OF this s2]
  have r: "sc_run env0 ?s0 [(2, True, 6), (4, True, 6)] s2"
    using a a1 f by simp
  from t have "sc_run env0 ?s0 [(2, True, 6), (4, True, 6)] s2 \<and> (0::nat) < 1
           \<and> 1 < length [(2::nat, True, 6::nat), (4, True, 6)]
           \<and> fst (snd ([(2::nat, True, 6::nat), (4, True, 6)] ! 0))
           \<and> fst (snd ([(2::nat, True, 6::nat), (4, True, 6)] ! 1))
           \<and> snd (snd ([(2::nat, True, 6::nat), (4, True, 6)] ! 0))
             = snd (snd ([(2::nat, True, 6::nat), (4, True, 6)] ! 1))
      \<longrightarrow> (Some (fst ([(2::nat, True, 6::nat), (4, True, 6)] ! 0)),
           Some (fst ([(2::nat, True, 6::nat), (4, True, 6)] ! 1))) \<in> (set (edges (mo_graph s2)))\<^sup>+"
    by blast
  then have "(Some 2, Some 4) \<in> (set (edges (mo_graph s2)))\<^sup>+" using r by simp
  then show ?thesis using s1 s2 m2 e2 by blast
qed

subsection \<open>The rf-choice loop of process_read\<close>

lemma hb_chain_ends:
  "rf_chain_ends acts r \<Longrightarrow> \<exists>e ps'. hb_chain acts (Some r) ps = Some (Inr (Some e, ps'))"
proof (induction arbitrary: ps rule: rf_chain_ends.induct)
  case (chain_stop acts r)
  then show ?case by (subst hb_chain.simps) auto
next
  case (chain_step acts r r')
  from chain_step.IH [of "ps @ [r]"] obtain e ps' where
    "hb_chain acts (Some r') (ps @ [r]) = Some (Inr (Some e, ps'))" by blast
  then show ?case using chain_step.hyps by (subst hb_chain.simps) simp
qed

lemma same_but_rfcv_refl: "same_but_rfcv s s"
  unfolding same_but_rfcv_def by (rule exI[of _ "\<lambda>a. rfcv (actions s a)"]) simp

lemma same_but_rfcv_trans:
  "same_but_rfcv s s' \<Longrightarrow> same_but_rfcv s' s'' \<Longrightarrow> same_but_rfcv s s''"
  unfolding same_but_rfcv_def
proof -
  assume "\<exists>f. s' = s\<lparr>actions := (\<lambda>a. (actions s a)\<lparr>rfcv := f a\<rparr>)\<rparr>"
    and "\<exists>f. s'' = s'\<lparr>actions := (\<lambda>a. (actions s' a)\<lparr>rfcv := f a\<rparr>)\<rparr>"
  then obtain f g where "s' = s\<lparr>actions := (\<lambda>a. (actions s a)\<lparr>rfcv := f a\<rparr>)\<rparr>"
    "s'' = s'\<lparr>actions := (\<lambda>a. (actions s' a)\<lparr>rfcv := g a\<rparr>)\<rparr>" by blast
  then have "s'' = s\<lparr>actions := (\<lambda>a. (actions s a)\<lparr>rfcv := g a\<rparr>)\<rparr>" by simp
  then show "\<exists>f. s'' = s\<lparr>actions := (\<lambda>a. (actions s a)\<lparr>rfcv := f a\<rparr>)\<rparr>" by blast
qed

lemma same_but_rfcv_upd: "same_but_rfcv s (upd_action s rf (\<lambda>a. a\<lparr>rfcv := x\<rparr>))"
proof -
  have "(actions s)(rf := (actions s rf)\<lparr>rfcv := x\<rparr>)
        = (\<lambda>a. (actions s a)\<lparr>rfcv := if a = rf then x else rfcv (actions s a)\<rparr>)"
    by (rule ext) simp
  then have "upd_action s rf (\<lambda>a. a\<lparr>rfcv := x\<rparr>)
        = s\<lparr>actions := (\<lambda>a. (actions s a)\<lparr>rfcv := if a = rf then x else rfcv (actions s a)\<rparr>)\<rparr>"
    by (simp add: upd_action_def)
  then show ?thesis unfolding same_but_rfcv_def
    by (rule exI [of _ "\<lambda>a. if a = rf then x else rfcv (actions s a)"])
qed

lemma hb_step_same: "hb_step s rf vec = (v, s') \<Longrightarrow> same_but_rfcv s s'"
  by (auto simp add: hb_step_def Let_def same_but_rfcv_refl same_but_rfcv_upd
      split: if_splits option.splits)

lemma hb_steps_same: "hb_steps s xs vec = (v, s') \<Longrightarrow> same_but_rfcv s s'"
proof (induction xs arbitrary: s vec)
  case Nil
  then show ?case by (simp add: same_but_rfcv_refl)
next
  case (Cons rf rest)
  obtain v1 s1 where h: "hb_step s rf vec = (v1, s1)" by (cases "hb_step s rf vec")
  with Cons.prems have "hb_steps s1 rest v1 = (v, s')" by simp
  then have "same_but_rfcv s1 s'" by (rule Cons.IH)
  moreover have "same_but_rfcv s s1" using h by (rule hb_step_same)
  ultimately show ?case by (rule same_but_rfcv_trans [rotated])
qed

lemma get_hb_from_write_same:
  "get_hb_from_write s rf = Some (Inr (v, s')) \<Longrightarrow> same_but_rfcv s s'"
proof -
  assume a: "get_hb_from_write s rf = Some (Inr (v, s'))"
  then obtain r ps where "hb_steps s (r # rev ps) None = (v, s')"
    by (auto simp add: get_hb_from_write_def split: option.splits sum.splits prod.splits)
  then show ?thesis by (rule hb_steps_same)
qed

lemma get_hb_from_write_returns:
  "rf_chain_ends (actions s) r \<Longrightarrow> \<exists>v s'. get_hb_from_write s (Some r) = Some (Inr (v, s'))"
proof -
  assume "rf_chain_ends (actions s) r"
  then obtain e ps' where "hb_chain (actions s) (Some r) [] = Some (Inr (Some e, ps'))"
    using hb_chain_ends by blast
  then show ?thesis
    by (simp add: get_hb_from_write_def)
qed

lemma same_but_rfcv_fields:
  assumes "same_but_rfcv s s'"
  shows "cv (actions s' a) = cv (actions s a)" "reads_from (actions s' a) = reads_from (actions s a)"
    "tid (actions s' a) = tid (actions s a)" "atype (actions s' a) = atype (actions s a)"
    "val (actions s' a) = val (actions s a)" "location (actions s' a) = location (actions s a)"
    "mo_graph s' = mo_graph s" "thread_map s' = thread_map s" "obj_thrd_map s' = obj_thrd_map s"
    "asserted s' = asserted s" "bugs s' = bugs s"
  using assms by (auto simp add: same_but_rfcv_def)

lemma edges_add_prior:
  "edges (mo_graph (add_prior_edges s rf ps)) = edges (mo_graph s) @ map (\<lambda>p. (Some p, Some rf)) ps"
proof -
  have "edges (foldl (\<lambda>g p. addEdge g (Some p) (Some rf)) g ps)
        = edges g @ map (\<lambda>p. (Some p, Some rf)) ps" for g
    by (induction ps arbitrary: g) (simp_all add: addEdge_def)
  then show ?thesis by (simp add: add_prior_edges_def)
qed

lemma add_prior_edges_frame:
  "actions (add_prior_edges s rf ps) = actions s"
  "thread_map (add_prior_edges s rf ps) = thread_map s"
  "obj_thrd_map (add_prior_edges s rf ps) = obj_thrd_map s"
  "asserted (add_prior_edges s rf ps) = asserted s"
  by (simp_all add: add_prior_edges_def)

lemma set_read_from_frame:
  "reads_from (actions (set_read_from s act rf) act) = Some rf"
  "cv (actions (set_read_from s act rf) a) = cv (actions s a)"
  "morder (actions (set_read_from s act rf) a) = morder (actions s a)"
  "atype (actions (set_read_from s act rf) a) = atype (actions s a)"
  "tid (actions (set_read_from s act rf) a) = tid (actions s a)"
  "val (actions (set_read_from s act rf) a) = val (actions s a)"
  "location (actions (set_read_from s act rf) a) = location (actions s a)"
  "mo_graph (set_read_from s act rf) = mo_graph s"
  "thread_map (set_read_from s act rf) = thread_map s"
  "obj_thrd_map (set_read_from s act rf) = obj_thrd_map s"
  "asserted (set_read_from s act rf) = asserted s"
  by (simp_all add: set_read_from_def upd_action_def)

lemma read_from_result:
  assumes "is_write (actions s rf)"
    and "is_acquire (actions s act) \<longrightarrow> rf_chain_ends (actions (set_read_from s act rf)) rf"
  shows "\<exists>s'. read_from s act rf = Some (Inr s')
     \<and> reads_from (actions s' act) = Some rf
     \<and> (\<forall>a. atype (actions s' a) = atype (actions s a) \<and> tid (actions s' a) = tid (actions s a)
             \<and> val (actions s' a) = val (actions s a)
             \<and> location (actions s' a) = location (actions s a))
     \<and> mo_graph s' = mo_graph s \<and> thread_map s' = thread_map s
     \<and> obj_thrd_map s' = obj_thrd_map s \<and> asserted s' = asserted s
     \<and> (\<not> is_acquire (actions s act) \<longrightarrow> cv (actions s' act) = cv (actions s act))
     \<and> (is_acquire (actions s act) \<longrightarrow>
          (\<exists>vec s2. get_hb_from_write (set_read_from s act rf) (Some rf) = Some (Inr (vec, s2))
             \<and> cv (actions s' act) =
                 (case vec of None \<Rightarrow> cv (actions s act)
                  | Some v \<Rightarrow> snd (ClockVector_merge (cv (actions s act)) v))))"
proof (cases "is_acquire (actions s act)")
  case False
  then have na: "\<not> is_acquire (actions (set_read_from s act rf) act)"
    by (simp add: is_acquire_def set_read_from_frame)
  have "read_from s act rf = Some (Inr (set_read_from s act rf))"
    using assms(1) na by (simp add: read_from_def Let_def)
  then show ?thesis using False by (simp add: set_read_from_frame)
next
  case True
  define s1 where "s1 = set_read_from s act rf"
  have a1: "is_acquire (actions s1 act)"
    using True by (simp add: s1_def is_acquire_def set_read_from_frame)
  from True assms(2) have "rf_chain_ends (actions s1) rf" by (simp add: s1_def)
  then obtain vec s2 where g: "get_hb_from_write s1 (Some rf) = Some (Inr (vec, s2))"
    using get_hb_from_write_returns by blast
  note f = same_but_rfcv_fields [OF get_hb_from_write_same [OF g]]
  define s' where "s' = (case vec of None \<Rightarrow> s2
      | Some v \<Rightarrow> upd_action s2 act (\<lambda>a. a\<lparr>cv := snd (ClockVector_merge (cv a) v)\<rparr>))"
  have r: "read_from s act rf = Some (Inr s')"
    using assms(1) a1 g
    by (simp add: read_from_def Let_def s1_def [symmetric] s'_def split: option.splits)
  have p1: "reads_from (actions s' act) = Some rf"
    by (simp add: s'_def upd_action_def f s1_def set_read_from_frame split: option.splits)
  have p2: "\<forall>a. atype (actions s' a) = atype (actions s a) \<and> tid (actions s' a) = tid (actions s a)
             \<and> val (actions s' a) = val (actions s a)
             \<and> location (actions s' a) = location (actions s a)"
    by (simp add: s'_def upd_action_def f s1_def set_read_from_frame split: option.splits)
  have p3: "mo_graph s' = mo_graph s \<and> thread_map s' = thread_map s
     \<and> obj_thrd_map s' = obj_thrd_map s \<and> asserted s' = asserted s"
    by (simp add: s'_def upd_action_def f s1_def set_read_from_frame split: option.splits)
  have p4: "cv (actions s' act) =
                 (case vec of None \<Rightarrow> cv (actions s act)
                  | Some v \<Rightarrow> snd (ClockVector_merge (cv (actions s act)) v))"
    by (simp add: s'_def upd_action_def f s1_def set_read_from_frame split: option.splits)
  show ?thesis
    using r p1 p2 p3 p4 g True unfolding s1_def by blast
qed

lemma is_acquire_frame:
  "is_acquire (actions (add_prior_edges s rf ps) a) = is_acquire (actions s a)"
  by (simp add: add_prior_edges_frame)

lemma process_read_commit_result:
  assumes W: "is_write (actions s rf)"
    and T: "get_thread s (tid (actions s cur)) = Some th"
    and P: "canprune \<and> atype (actions s cur) = ATOMIC_READ \<longrightarrow>
              (\<exists>vec l. obj_thrd_map s (location (actions s cur)) = Some vec
                  \<and> vec_at vec (id_to_int (tid (actions s cur))) = Inr l \<and> l \<noteq> [])"
    and A: "is_acquire (actions s cur) \<longrightarrow> rf_chain_ends (actions (set_read_from s cur rf)) rf"
  shows "\<exists>s'. process_read_commit s cur rf priorset canprune = Some (Inr (True, s'))
     \<and> edges (mo_graph s') = edges (mo_graph s) @ map (\<lambda>p. (Some p, Some rf)) priorset
     \<and> reads_from (actions s' cur) = Some rf
     \<and> map_option return_value (get_thread s' (tid (actions s cur))) = Some (val (actions s rf))
     \<and> asserted s' = asserted s
     \<and> (\<not> is_acquire (actions s cur) \<longrightarrow> cv (actions s' cur) = cv (actions s cur))
     \<and> (is_acquire (actions s cur) \<longrightarrow>
          (\<exists>vec s2. get_hb_from_write (set_read_from (add_prior_edges s rf priorset) cur rf) (Some rf)
                      = Some (Inr (vec, s2))
             \<and> cv (actions s' cur) =
                 (case vec of None \<Rightarrow> cv (actions s cur)
                  | Some v \<Rightarrow> snd (ClockVector_merge (cv (actions s cur)) v))))"
proof -
  define s1 where "s1 = add_prior_edges s rf priorset"
  have f1: "actions s1 = actions s" "thread_map s1 = thread_map s"
    "obj_thrd_map s1 = obj_thrd_map s" "asserted s1 = asserted s"
    by (simp_all add: s1_def add_prior_edges_frame)
  have e1: "edges (mo_graph s1) = edges (mo_graph s) @ map (\<lambda>p. (Some p, Some rf)) priorset"
    by (simp add: s1_def edges_add_prior)
  have W1: "is_write (actions s1 rf)" using W by (simp add: f1)
  have "actions (set_read_from s1 cur rf) = actions (set_read_from s cur rf)"
    by (simp add: set_read_from_def upd_action_def f1)
  then have A1: "is_acquire (actions s1 cur) \<longrightarrow> rf_chain_ends (actions (set_read_from s1 cur rf)) rf"
    using A by (simp add: f1)
  from read_from_result [OF W1 A1] obtain s2 where
    r: "read_from s1 cur rf = Some (Inr s2)"
    and rf2: "reads_from (actions s2 cur) = Some rf"
    and fr2: "\<And>a. atype (actions s2 a) = atype (actions s1 a)" "\<And>a. tid (actions s2 a) = tid (actions s1 a)"
       "\<And>a. val (actions s2 a) = val (actions s1 a)" "\<And>a. location (actions s2 a) = location (actions s1 a)"
    and g2: "mo_graph s2 = mo_graph s1" "thread_map s2 = thread_map s1"
       "obj_thrd_map s2 = obj_thrd_map s1" "asserted s2 = asserted s1"
    and c2: "\<not> is_acquire (actions s1 cur) \<longrightarrow> cv (actions s2 cur) = cv (actions s1 cur)"
    and h2: "is_acquire (actions s1 cur) \<longrightarrow>
          (\<exists>vec s2'. get_hb_from_write (set_read_from s1 cur rf) (Some rf) = Some (Inr (vec, s2'))
             \<and> cv (actions s2 cur) =
                 (case vec of None \<Rightarrow> cv (actions s1 cur)
                  | Some v \<Rightarrow> snd (ClockVector_merge (cv (actions s1 cur)) v)))"
    by blast
  let ?t = "tid (actions s cur)"
  have t2: "tid (actions s2 cur) = ?t" by (simp add: fr2 f1)
  have rv: "get_return_value s2 cur = val (actions s rf)"
    by (simp add: get_return_value_def rf2 fr2 f1)
  have gt2: "get_thread s2 ?t = Some th"
    using T get_thread_frame [of s2 s ?t] by (simp add: g2 f1)
  define s3 where "s3 = s2\<lparr>thread_map := (thread_map s2)[to_unsigned (id_to_int ?t) :=
                      Some (th\<lparr>return_value := val (actions s rf)\<rparr>)]\<rparr>"
  have sr: "set_return_value s2 (tid (actions s2 cur)) (get_return_value s2 cur) = Inr s3"
    using gt2 by (simp add: set_return_value_def t2 rv s3_def)
  have f3: "actions s3 = actions s2" "mo_graph s3 = mo_graph s2" "obj_thrd_map s3 = obj_thrd_map s2"
    "asserted s3 = asserted s2"
    by (simp_all add: s3_def)
  have gt3: "get_thread s3 ?t = Some (th\<lparr>return_value := val (actions s rf)\<rparr>)"
    using gt2 by (auto simp add: s3_def get_thread_def Let_def split: if_splits)
  have at3: "atype (actions s3 cur) = atype (actions s cur)"
    "tid (actions s3 cur) = ?t" "location (actions s3 cur) = location (actions s cur)"
    by (simp_all add: f3 fr2 f1)
  have "\<exists>s'. process_read_commit s cur rf priorset canprune = Some (Inr (True, s'))
      \<and> actions s' = actions s3 \<and> mo_graph s' = mo_graph s3 \<and> thread_map s' = thread_map s3
      \<and> asserted s' = asserted s3"
  proof (cases "canprune \<and> atype (actions s cur) = ATOMIC_READ")
    case True
    then obtain vec l where v: "obj_thrd_map s (location (actions s cur)) = Some vec"
      "vec_at vec (id_to_int ?t) = Inr l" "l \<noteq> []" using P by blast
    have v3: "obj_thrd_map s3 (location (actions s cur)) = Some vec"
      using v(1) by (simp add: f3 g2 f1)
    have "process_read_commit s cur rf priorset canprune =
        Some (Inr (True, s3\<lparr>obj_thrd_map := (obj_thrd_map s3)
            (location (actions s cur) \<mapsto> vec[to_unsigned (id_to_int ?t) := butlast l])\<rparr>))"
      using True r sr v(2,3) v3
      by (simp add: process_read_commit_def Let_def s1_def [symmetric] at3)
    then show ?thesis by simp
  next
    case False
    then have "process_read_commit s cur rf priorset canprune = Some (Inr (True, s3))"
      using r sr
      by (auto simp add: process_read_commit_def Let_def s1_def [symmetric] at3)
    then show ?thesis by simp
  qed
  then obtain s' where c: "process_read_commit s cur rf priorset canprune = Some (Inr (True, s'))"
    and f': "actions s' = actions s3" "mo_graph s' = mo_graph s3" "thread_map s' = thread_map s3"
      "asserted s' = asserted s3"
    by blast
  have q1: "edges (mo_graph s') = edges (mo_graph s) @ map (\<lambda>p. (Some p, Some rf)) priorset"
    by (simp add: f' f3 g2 e1)
  have q2: "reads_from (actions s' cur) = Some rf" by (simp add: f' f3 rf2)
  have "get_thread s' ?t = get_thread s3 ?t" using f'(3) by (rule get_thread_frame)
  then have q3: "map_option return_value (get_thread s' ?t) = Some (val (actions s rf))"
    by (simp add: gt3)
  have q4: "asserted s' = asserted s" by (simp add: f' f3 g2 f1)
  have q5: "\<not> is_acquire (actions s cur) \<longrightarrow> cv (actions s' cur) = cv (actions s cur)"
    using c2 by (simp add: f' f3 f1)
  have q6: "is_acquire (actions s cur) \<longrightarrow>
          (\<exists>vec s2. get_hb_from_write (set_read_from (add_prior_edges s rf priorset) cur rf) (Some rf)
                      = Some (Inr (vec, s2))
             \<and> cv (actions s' cur) =
                 (case vec of None \<Rightarrow> cv (actions s cur)
                  | Some v \<Rightarrow> snd (ClockVector_merge (cv (actions s cur)) v)))"
    using h2 by (simp add: f' f3 f1 s1_def [symmetric] cong: option.case_cong)
  show ?thesis using c q1 q2 q3 q4 q5 q6 by blast
qed

lemma swap_pop_mset:
  assumes "i < length xs"
  shows "mset (butlast (xs[i := last xs])) = mset xs - {# xs ! i #}"
proof -
  from assms obtain ys l where xs: "xs = ys @ [l]"
    by (metis length_0_conv less_nat_zero_code rev_exhaust)
  show ?thesis
  proof (cases "i < length ys")
    case True
    then have "butlast (xs[i := last xs]) = ys[i := l]" by (simp add: xs list_update_append)
    moreover have "xs ! i = ys ! i" using True by (simp add: xs nth_append)
    moreover have "ys ! i \<in># mset ys" using True by simp
    ultimately show ?thesis using True by (simp add: xs mset_update)
  next
    case False
    then have "i = length ys" using assms by (simp add: xs)
    then show ?thesis by (simp add: xs)
  qed
qed

lemma read_exec_r_mo:
  "r_modification_order env1 read_exec 0 5 [] False False = Inr (True, [4], False)"
  by code_simp

lemma read_exec_r_mo_reject:
  "r_modification_order env1 (read_exec\<lparr>mo_graph := \<lparr>edges = [(Some 5, Some 4)], rmw_of = (\<lambda>a. None)\<rparr>\<rparr>) 0 5 [] False False
    = Inr (False, [], False)"
  by code_simp

lemma process_read_loop_reject:
  assumes "selectWrite env cur rf_set = index" "index \<noteq> - 1" "vec_at rf_set index = Inr rf"
    and "r_modification_order env s cur rf priorset False False = Inr (False, priorset', canprune)"
  shows "process_read_loop env s cur rf_set priorset =
         process_read_loop env s cur (butlast (rf_set[to_unsigned index := last rf_set])) []"
  using assms by (subst process_read_loop.simps) (simp add: Let_def)

lemma process_read_loop_accept:
  assumes "selectWrite env cur rf_set = index" "index \<noteq> - 1" "vec_at rf_set index = Inr rf"
    and "r_modification_order env s cur rf priorset False False = Inr (True, priorset', canprune)"
  shows "process_read_loop env s cur rf_set priorset = process_read_commit s cur rf priorset' canprune"
  using assms by (subst process_read_loop.simps) (simp add: Let_def)

lemma vec_at_Inr: "vec_at xs i = Inr x \<Longrightarrow> to_unsigned i < length xs \<and> x = xs ! to_unsigned i"
  by (auto simp add: vec_at_def Let_def split: if_splits)

text \<open>
  C3. One iteration of the rf-choice loop of \<^verbatim>\<open>process_read\<close>, for a candidate \<open>rf\<close> that
  the fuzzer chose at \<open>index\<close> and on which \<^verbatim>\<open>r_modification_order\<close> returned. When it
  rejects, the loop goes on with \<open>rf_set\<close> in which the last element has been written over
  position \<open>index\<close> and then popped, which is \<open>rf_set\<close> without one occurrence of \<open>rf\<close>,
  and with an empty priorset. When it accepts, the loop returns true, the graph has gained
  the edge from every action of the priorset to \<open>rf\<close>, the read's rf link is \<open>rf\<close>, its
  thread has the value of \<open>rf\<close> as return value, and the clock vector of the read is merged
  with the release vector that \<^verbatim>\<open>get_hb_from_write\<close> computes from \<open>rf\<close> if the read is
  acquire, and is unchanged otherwise. The accepting case is stated for the executions in
  which the commit does not fail: \<open>rf\<close> is a write, the thread of the read is in the thread
  map, the pruned list is there to prune, and the rf chain walked from \<open>rf\<close> ends.
\<close>

theorem process_read_iteration:
  assumes "selectWrite env cur rf_set = index" and "index \<noteq> - 1"
    and "vec_at rf_set index = Inr rf"
    and "r_modification_order env s cur rf priorset False False = Inr (ok, priorset', canprune)"
  shows "(\<not> ok \<longrightarrow>
            process_read_loop env s cur rf_set priorset =
              process_read_loop env s cur (butlast (rf_set[to_unsigned index := last rf_set])) []
          \<and> mset (butlast (rf_set[to_unsigned index := last rf_set])) = mset rf_set - {# rf #})
       \<and> (ok \<and> is_write (actions s rf)
           \<and> get_thread s (tid (actions s cur)) \<noteq> None
           \<and> (canprune \<and> atype (actions s cur) = ATOMIC_READ \<longrightarrow>
                (\<exists>vec l. obj_thrd_map s (location (actions s cur)) = Some vec
                    \<and> vec_at vec (id_to_int (tid (actions s cur))) = Inr l \<and> l \<noteq> []))
           \<and> (is_acquire (actions s cur) \<longrightarrow>
                rf_chain_ends (actions (set_read_from s cur rf)) rf)
          \<longrightarrow> (\<exists>s'. process_read_loop env s cur rf_set priorset = Some (Inr (True, s'))
                 \<and> edges (mo_graph s') = edges (mo_graph s) @ map (\<lambda>p. (Some p, Some rf)) priorset'
                 \<and> reads_from (actions s' cur) = Some rf
                 \<and> map_option return_value (get_thread s' (tid (actions s cur)))
                     = Some (val (actions s rf))
                 \<and> (\<not> is_acquire (actions s cur) \<longrightarrow> cv (actions s' cur) = cv (actions s cur))
                 \<and> (is_acquire (actions s cur) \<longrightarrow>
                      (\<exists>vec s2. get_hb_from_write
                                   (set_read_from (add_prior_edges s rf priorset') cur rf) (Some rf)
                                 = Some (Inr (vec, s2))
                         \<and> cv (actions s' cur) =
                             (case vec of
                                None \<Rightarrow> cv (actions s cur)
                              | Some v \<Rightarrow> snd (ClockVector_merge (cv (actions s cur)) v))))))"
proof (intro conjI impI)
  assume "\<not> ok"
  then show "process_read_loop env s cur rf_set priorset =
              process_read_loop env s cur (butlast (rf_set[to_unsigned index := last rf_set])) []"
    using assms by (intro process_read_loop_reject) simp_all
next
  assume "\<not> ok"
  show "mset (butlast (rf_set[to_unsigned index := last rf_set])) = mset rf_set - {# rf #}"
    using vec_at_Inr [OF assms(3)] by (simp add: swap_pop_mset)
next
  assume h: "ok \<and> is_write (actions s rf)
           \<and> get_thread s (tid (actions s cur)) \<noteq> None
           \<and> (canprune \<and> atype (actions s cur) = ATOMIC_READ \<longrightarrow>
                (\<exists>vec l. obj_thrd_map s (location (actions s cur)) = Some vec
                    \<and> vec_at vec (id_to_int (tid (actions s cur))) = Inr l \<and> l \<noteq> []))
           \<and> (is_acquire (actions s cur) \<longrightarrow>
                rf_chain_ends (actions (set_read_from s cur rf)) rf)"
  then obtain th where th: "get_thread s (tid (actions s cur)) = Some th" by auto
  have l: "process_read_loop env s cur rf_set priorset
           = process_read_commit s cur rf priorset' canprune"
    using assms h by (intro process_read_loop_accept) simp_all
  from h have W: "is_write (actions s rf)"
    and P: "canprune \<and> atype (actions s cur) = ATOMIC_READ \<longrightarrow>
                (\<exists>vec l. obj_thrd_map s (location (actions s cur)) = Some vec
                    \<and> vec_at vec (id_to_int (tid (actions s cur))) = Inr l \<and> l \<noteq> [])"
    and A: "is_acquire (actions s cur) \<longrightarrow> rf_chain_ends (actions (set_read_from s cur rf)) rf"
    by blast+
  from process_read_commit_result [OF W th P A, of priorset']
  show "\<exists>s'. process_read_loop env s cur rf_set priorset = Some (Inr (True, s'))
                 \<and> edges (mo_graph s') = edges (mo_graph s) @ map (\<lambda>p. (Some p, Some rf)) priorset'
                 \<and> reads_from (actions s' cur) = Some rf
                 \<and> map_option return_value (get_thread s' (tid (actions s cur)))
                     = Some (val (actions s rf))
                 \<and> (\<not> is_acquire (actions s cur) \<longrightarrow> cv (actions s' cur) = cv (actions s cur))
                 \<and> (is_acquire (actions s cur) \<longrightarrow>
                      (\<exists>vec s2. get_hb_from_write
                                   (set_read_from (add_prior_edges s rf priorset') cur rf) (Some rf)
                                 = Some (Inr (vec, s2))
                         \<and> cv (actions s' cur) =
                             (case vec of
                                None \<Rightarrow> cv (actions s cur)
                              | Some v \<Rightarrow> snd (ClockVector_merge (cv (actions s cur)) v))))"
    unfolding l by blast
qed

lemma read_exec_hb:
  "get_hb_from_write (set_read_from (add_prior_edges read_exec 5 [4]) 0 5) (Some 5)
   = Some (Inr (Some [1], set_read_from (add_prior_edges read_exec 5 [4]) 0 5))"
  by (subst get_hb_from_write_def, subst hb_chain.simps)
     (simp add: set_read_from_def upd_action_def add_prior_edges_def read_exec_def
       read_actions_def act0_def is_write_def is_rmw_def hb_step_def is_acquire_def is_release_def)
















lemma read_exec_facts:
  "selectWrite env1 0 [5, 4] = 0" "vec_at [5, 4] 0 = Inr (5::nat)"
  "is_write (actions read_exec 5)" "is_acquire (actions read_exec 0)"
  "cv (actions read_exec 0) = [0, 9, 5]" "edges (mo_graph read_exec) = []"
  "get_thread read_exec (tid (actions read_exec 0)) \<noteq> None"
  by (simp_all add: env1_def env0_def vec_at_def to_unsigned_def read_exec_def read_actions_def
      act0_def is_write_def is_acquire_def two_threads_def initial_execution_def get_thread_def
      id_to_int_def)

lemma read_exec_chain: "rf_chain_ends (actions (set_read_from read_exec 0 5)) 5"
  by (rule chain_stop)
    (simp_all add: set_read_from_def upd_action_def read_exec_def read_actions_def act0_def
      is_write_def is_rmw_def)

lemma merge_example2: "ClockVector_merge [0, 9, 5] [1] = (True, [1, 9, 5])"
  by code_simp

theorem process_read_iteration_witness:
  "(\<exists>s'. process_read_loop env1 read_exec 0 [5, 4] [] = Some (Inr (True, s'))
      \<and> edges (mo_graph s') = [(Some 4, Some 5)]
      \<and> reads_from (actions s' 0) = Some 5
      \<and> cv (actions s' 0) = [1, 9, 5])
   \<and> process_read_loop env1
        (read_exec\<lparr>mo_graph := \<lparr>edges = [(Some 5, Some 4)], rmw_of = (\<lambda>a. None)\<rparr>\<rparr>) 0 [5, 4] []
     = process_read_loop env1
        (read_exec\<lparr>mo_graph := \<lparr>edges = [(Some 5, Some 4)], rmw_of = (\<lambda>a. None)\<rparr>\<rparr>) 0 [4] []"
proof -
  note t = process_read_iteration [OF read_exec_facts(1) _ read_exec_facts(2) read_exec_r_mo]
  have "\<exists>s'. process_read_loop env1 read_exec 0 [5, 4] [] = Some (Inr (True, s'))
                 \<and> edges (mo_graph s') = edges (mo_graph read_exec) @ map (\<lambda>p. (Some p, Some 5)) [4]
                 \<and> reads_from (actions s' 0) = Some 5
                 \<and> map_option return_value (get_thread s' (tid (actions read_exec 0)))
                     = Some (val (actions read_exec 5))
                 \<and> (\<not> is_acquire (actions read_exec 0) \<longrightarrow> cv (actions s' 0) = cv (actions read_exec 0))
                 \<and> (is_acquire (actions read_exec 0) \<longrightarrow>
                      (\<exists>vec s2. get_hb_from_write
                                   (set_read_from (add_prior_edges read_exec 5 [4]) 0 5) (Some 5)
                                 = Some (Inr (vec, s2))
                         \<and> cv (actions s' 0) =
                             (case vec of
                                None \<Rightarrow> cv (actions read_exec 0)
                              | Some v \<Rightarrow> snd (ClockVector_merge (cv (actions read_exec 0)) v))))"
    using t read_exec_facts(3,4,7) read_exec_chain by (simp del: process_read_loop.simps)
  then obtain s' vec s2 where
    a: "process_read_loop env1 read_exec 0 [5, 4] [] = Some (Inr (True, s'))"
    and b: "edges (mo_graph s') = edges (mo_graph read_exec) @ map (\<lambda>p. (Some p, Some 5)) [4]"
    and c: "reads_from (actions s' 0) = Some 5"
    and d: "get_hb_from_write (set_read_from (add_prior_edges read_exec 5 [4]) 0 5) (Some 5)
              = Some (Inr (vec, s2))"
    and e: "cv (actions s' 0) =
              (case vec of
                 None \<Rightarrow> cv (actions read_exec 0)
               | Some v \<Rightarrow> snd (ClockVector_merge (cv (actions read_exec 0)) v))"
    using read_exec_facts(4) by blast
  have "vec = Some [1]" using d read_exec_hb by simp
  then have "cv (actions s' 0) = [1, 9, 5]"
    using e by (simp only: read_exec_facts(5) option.case merge_example2 snd_conv)
  moreover have "edges (mo_graph s') = [(Some 4, Some 5)]"
    using b by (simp only: read_exec_facts(6) append_Nil list.map)
  ultimately have "process_read_loop env1 read_exec 0 [5, 4] [] = Some (Inr (True, s'))
      \<and> edges (mo_graph s') = [(Some 4, Some 5)]
      \<and> reads_from (actions s' 0) = Some 5
      \<and> cv (actions s' 0) = [1, 9, 5]" using a c by blast
  then have first: "\<exists>s'. process_read_loop env1 read_exec 0 [5, 4] [] = Some (Inr (True, s'))
      \<and> edges (mo_graph s') = [(Some 4, Some 5)]
      \<and> reads_from (actions s' 0) = Some 5
      \<and> cv (actions s' 0) = [1, 9, 5]" by blast
  have l: "butlast ([5, 4][to_unsigned 0 := last [5, 4]]) = [4::nat]"
    by (simp add: to_unsigned_def)
  have "process_read_loop env1
        (read_exec\<lparr>mo_graph := \<lparr>edges = [(Some 5, Some 4)], rmw_of = (\<lambda>a. None)\<rparr>\<rparr>) 0 [5, 4] []
     = process_read_loop env1
        (read_exec\<lparr>mo_graph := \<lparr>edges = [(Some 5, Some 4)], rmw_of = (\<lambda>a. None)\<rparr>\<rparr>) 0
          (butlast ([5, 4][to_unsigned 0 := last [5, 4]])) []"
    using process_read_iteration [OF read_exec_facts(1) _ read_exec_facts(2) read_exec_r_mo_reject]
    by (simp del: process_read_loop.simps)
  then have "process_read_loop env1
        (read_exec\<lparr>mo_graph := \<lparr>edges = [(Some 5, Some 4)], rmw_of = (\<lambda>a. None)\<rparr>\<rparr>) 0 [5, 4] []
     = process_read_loop env1
        (read_exec\<lparr>mo_graph := \<lparr>edges = [(Some 5, Some 4)], rmw_of = (\<lambda>a. None)\<rparr>\<rparr>) 0 [4] []"
    by (simp only: l)
  then show ?thesis using first by blast
qed


end
